theory Spec2Isabelle
  imports Main
begin

section \<open>Constants (constants.py)\<close>

abbreviation (input) BOARD_WIDTH :: nat where "BOARD_WIDTH \<equiv> 7"
abbreviation (input) BOARD_HEIGHT :: nat where "BOARD_HEIGHT \<equiv> 6"
abbreviation (input) EMPTY :: int where "EMPTY \<equiv> 0"
abbreviation (input) PLAYER_PIECE :: int where "PLAYER_PIECE \<equiv> 1"
abbreviation (input) AI_PIECE :: int where "AI_PIECE \<equiv> 2"
abbreviation (input) WINDOW_LENGTH :: nat where "WINDOW_LENGTH \<equiv> 4"

section \<open>Boards\<close>

text \<open>
  The board is the integer array made by \<^verbatim>\<open>np.zeros((BOARD_HEIGHT, BOARD_WIDTH), dtype=int)\<close>:
  a list of rows, row 0 on top. \<open>board ! row ! col\<close> is \<^verbatim>\<open>board[row][col]\<close>; the
  shape of the array is the predicate \<open>wf_board\<close>.
\<close>

type_synonym board = "int list list"

definition wf_board :: "board \<Rightarrow> bool" where
  "wf_board board \<longleftrightarrow>
     length board = BOARD_HEIGHT \<and> list_all (\<lambda>row. length row = BOARD_WIDTH) board"

datatype error = IndexError

section \<open>Scores: integers and the two infinities of \<^verbatim>\<open>math.inf\<close>\<close>

datatype ext = MInf | Fin int | PInf

instantiation ext :: linorder
begin

fun less_eq_ext :: "ext \<Rightarrow> ext \<Rightarrow> bool" where
  "less_eq_ext MInf _ = True"
| "less_eq_ext (Fin _) MInf = False"
| "less_eq_ext (Fin a) (Fin b) = (a \<le> b)"
| "less_eq_ext (Fin _) PInf = True"
| "less_eq_ext PInf PInf = True"
| "less_eq_ext PInf _ = False"

definition less_ext :: "ext \<Rightarrow> ext \<Rightarrow> bool" where
  "less_ext x y \<longleftrightarrow> x \<le> y \<and> \<not> y \<le> x"

instance
proof
  fix x y z :: ext
  show "(x < y) = (x \<le> y \<and> \<not> y \<le> x)" by (rule less_ext_def)
  show "x \<le> x" by (cases x) simp_all
  show "x \<le> y \<Longrightarrow> y \<le> z \<Longrightarrow> x \<le> z"
    by (cases x; cases y; cases z) simp_all
  show "x \<le> y \<Longrightarrow> y \<le> x \<Longrightarrow> x = y"
    by (cases x; cases y) simp_all
  show "x \<le> y \<or> y \<le> x"
    by (cases x; cases y) auto
qed

end

section \<open>Board queries (ai.py)\<close>

definition get_valid_moves :: "board \<Rightarrow> nat list" where
  "get_valid_moves board = filter (\<lambda>col. board ! 0 ! col = EMPTY) [0..<BOARD_WIDTH]"

definition winning_move :: "board \<Rightarrow> int \<Rightarrow> bool" where
  "winning_move board piece \<longleftrightarrow>
     list_ex (\<lambda>row. list_ex (\<lambda>col.
        list_all (\<lambda>i. board ! row ! (col + i) = piece) [0..<WINDOW_LENGTH])
        [0..<BOARD_WIDTH - 3]) [0..<BOARD_HEIGHT]
   \<or> list_ex (\<lambda>col. list_ex (\<lambda>row.
        list_all (\<lambda>i. board ! (row + i) ! col = piece) [0..<WINDOW_LENGTH])
        [0..<BOARD_HEIGHT - 3]) [0..<BOARD_WIDTH]
   \<or> list_ex (\<lambda>row. list_ex (\<lambda>col.
        list_all (\<lambda>i. board ! (row + i) ! (col + i) = piece) [0..<WINDOW_LENGTH])
        [0..<BOARD_WIDTH - 3]) [0..<BOARD_HEIGHT - 3]
   \<or> list_ex (\<lambda>row. list_ex (\<lambda>col.
        list_all (\<lambda>i. board ! (row - i) ! (col + i) = piece) [0..<WINDOW_LENGTH])
        [0..<BOARD_WIDTH - 3]) [3..<BOARD_HEIGHT]"

definition is_terminal_node :: "board \<Rightarrow> bool" where
  "is_terminal_node board =
     (let cond1 = winning_move board PLAYER_PIECE;
          cond2 = winning_move board AI_PIECE;
          cond3 = list_all (\<lambda>col. board ! 0 ! col \<noteq> EMPTY) [0..<BOARD_WIDTH]
      in cond1 \<or> cond2 \<or> cond3)"

definition evaluate_window :: "int list \<Rightarrow> int \<Rightarrow> int" where
  "evaluate_window window piece =
     (let opp_piece = (if piece = AI_PIECE then PLAYER_PIECE else AI_PIECE);
          score = 0;
          score = (if count_list window piece = 4 then score + 100
                   else if count_list window piece = 3 \<and> count_list window EMPTY = 1
                     then score + 5
                   else if count_list window piece = 2 \<and> count_list window EMPTY = 2
                     then score + 2
                   else score);
          score = (if count_list window opp_piece = 3 \<and> count_list window EMPTY = 1
                   then score - 4 else score)
      in score)"

definition score_position :: "board \<Rightarrow> int \<Rightarrow> int" where
  "score_position board piece =
     (let score = 0;
          center_array = map (\<lambda>row. board ! row ! (BOARD_WIDTH div 2)) [0..<BOARD_HEIGHT];
          center_count = count_list center_array piece;
          score = score + int center_count * 3;
          score = score + (\<Sum>row\<leftarrow>[0..<BOARD_HEIGHT]. \<Sum>col\<leftarrow>[0..<BOARD_WIDTH - 3].
                    evaluate_window (map (\<lambda>i. board ! row ! (col + i)) [0..<WINDOW_LENGTH]) piece);
          score = score + (\<Sum>col\<leftarrow>[0..<BOARD_WIDTH]. \<Sum>row\<leftarrow>[0..<BOARD_HEIGHT - 3].
                    evaluate_window (map (\<lambda>i. board ! (row + i) ! col) [0..<WINDOW_LENGTH]) piece);
          score = score + (\<Sum>row\<leftarrow>[0..<BOARD_HEIGHT - 3]. \<Sum>col\<leftarrow>[0..<BOARD_WIDTH - 3].
                    evaluate_window (map (\<lambda>i. board ! (row + i) ! (col + i)) [0..<WINDOW_LENGTH]) piece);
          score = score + (\<Sum>row\<leftarrow>[0..<BOARD_HEIGHT - 3]. \<Sum>col\<leftarrow>[3..<BOARD_WIDTH].
                    evaluate_window (map (\<lambda>i. board ! (row + i) ! (col - i)) [0..<WINDOW_LENGTH]) piece)
      in score)"

text \<open>
  \<^verbatim>\<open>get_next_open_row\<close> scans the rows from the bottom (\<open>BOARD_HEIGHT - 1\<close>) up to 0
  and returns \<open>-1\<close> for a full column.
\<close>

definition get_next_open_row :: "board \<Rightarrow> nat \<Rightarrow> int" where
  "get_next_open_row board col =
     (case find (\<lambda>row. board ! row ! col = EMPTY) (rev [0..<BOARD_HEIGHT]) of
        Some row \<Rightarrow> int row
      | None \<Rightarrow> - 1)"

text \<open>
  \<^verbatim>\<open>board[row][col] = piece\<close> with Python's indexing: a negative row counts from the
  end, an index outside the array raises IndexError. The result is the updated array.
\<close>

definition drop_piece :: "board \<Rightarrow> int \<Rightarrow> nat \<Rightarrow> int \<Rightarrow> error + board" where
  "drop_piece board row col piece =
     (let n = int (length board);
          r = (if row < 0 then n + row else row)
      in if 0 \<le> r \<and> r < n \<and> col < length (board ! nat r)
         then Inr (board[nat r := (board ! nat r)[col := piece]])
         else Inl IndexError)"

section \<open>Minimax with alpha-beta pruning (ai.py)\<close>

text \<open>
  The search depth is a natural number: the search is run with depths from 0 upwards,
  and \<open>depth - 1\<close> is computed only where \<open>depth\<close> is not 0. The result is the pair
  \<^verbatim>\<open>(column, value)\<close>, with \<open>None\<close> for the column in the base case, or the IndexError
  of \<^verbatim>\<open>valid_moves[0]\<close> on an empty list or of a write outside the array.
\<close>

text \<open>
  The two \<^verbatim>\<open>for col in valid_moves\<close> loops. \<open>child col alpha\<close> (resp. \<open>child col beta\<close>)
  is the score of the recursive call for \<open>col\<close> under the current bound; the loop
  state is \<open>value\<close>, \<open>column\<close> and the bound that moves.
\<close>

fun max_loop :: "(nat \<Rightarrow> ext \<Rightarrow> error + ext) \<Rightarrow> nat list \<Rightarrow> ext \<Rightarrow> nat \<Rightarrow> ext \<Rightarrow> ext
    \<Rightarrow> error + (nat option \<times> ext)" where
  "max_loop child [] value column alpha beta = Inr (Some column, value)"
| "max_loop child (col # cols) value column alpha beta =
     (case child col alpha of
        Inl e \<Rightarrow> Inl e
      | Inr new_score \<Rightarrow>
          (let (value, column) =
                 (if new_score > value then (new_score, col) else (value, column));
               alpha = max alpha value
           in if alpha \<ge> beta then Inr (Some column, value)
              else max_loop child cols value column alpha beta))"

fun min_loop :: "(nat \<Rightarrow> ext \<Rightarrow> error + ext) \<Rightarrow> nat list \<Rightarrow> ext \<Rightarrow> nat \<Rightarrow> ext \<Rightarrow> ext
    \<Rightarrow> error + (nat option \<times> ext)" where
  "min_loop child [] value column alpha beta = Inr (Some column, value)"
| "min_loop child (col # cols) value column alpha beta =
     (case child col beta of
        Inl e \<Rightarrow> Inl e
      | Inr new_score \<Rightarrow>
          (let (value, column) =
                 (if new_score < value then (new_score, col) else (value, column));
               beta = min beta value
           in if alpha \<ge> beta then Inr (Some column, value)
              else min_loop child cols value column alpha beta))"

lemma max_loop_cong [fundef_cong]:
  assumes "cols = cols'" "value = value'" "column = column'" "alpha = alpha'" "beta = beta'"
    and "\<And>col a. col \<in> set cols' \<Longrightarrow> child col a = child' col a"
  shows "max_loop child cols value column alpha beta
       = max_loop child' cols' value' column' alpha' beta'"
proof -
  have "max_loop child cols' v c a b = max_loop child' cols' v c a b" for v c a b
    using assms(6)
    by (induction cols' arbitrary: v c a b) (auto split: sum.splits prod.splits simp: Let_def)
  then show ?thesis using assms by simp
qed

lemma min_loop_cong [fundef_cong]:
  assumes "cols = cols'" "value = value'" "column = column'" "alpha = alpha'" "beta = beta'"
    and "\<And>col b. col \<in> set cols' \<Longrightarrow> child col b = child' col b"
  shows "min_loop child cols value column alpha beta
       = min_loop child' cols' value' column' alpha' beta'"
proof -
  have "min_loop child cols' v c a b = min_loop child' cols' v c a b" for v c a b
    using assms(6)
    by (induction cols' arbitrary: v c a b) (auto split: sum.splits prod.splits simp: Let_def)
  then show ?thesis using assms by simp
qed

function minimax :: "board \<Rightarrow> nat \<Rightarrow> ext \<Rightarrow> ext \<Rightarrow> bool \<Rightarrow> error + (nat option \<times> ext)" where
  "minimax board depth alpha beta maximizing_player =
     (let valid_moves = get_valid_moves board;
          is_terminal = is_terminal_node board
      in if depth = 0 \<or> is_terminal then
           (if is_terminal then
              (if winning_move board AI_PIECE then Inr (None, Fin 100000000)
               else if winning_move board PLAYER_PIECE then Inr (None, Fin (- 100000000))
               else Inr (None, Fin 0))
            else Inr (None, Fin (score_position board AI_PIECE)))
         else if maximizing_player then
           (case valid_moves of
              [] \<Rightarrow> Inl IndexError
            | column # _ \<Rightarrow>
                max_loop (\<lambda>col alpha.
                    case drop_piece board (get_next_open_row board col) col AI_PIECE of
                      Inl e \<Rightarrow> Inl e
                    | Inr board_copy \<Rightarrow>
                        (case minimax board_copy (depth - 1) alpha beta False of
                           Inl e \<Rightarrow> Inl e
                         | Inr r \<Rightarrow> Inr (snd r)))
                  valid_moves MInf column alpha beta)
         else
           (case valid_moves of
              [] \<Rightarrow> Inl IndexError
            | column # _ \<Rightarrow>
                min_loop (\<lambda>col beta.
                    case drop_piece board (get_next_open_row board col) col PLAYER_PIECE of
                      Inl e \<Rightarrow> Inl e
                    | Inr board_copy \<Rightarrow>
                        (case minimax board_copy (depth - 1) alpha beta True of
                           Inl e \<Rightarrow> Inl e
                         | Inr r \<Rightarrow> Inr (snd r)))
                  valid_moves PInf column alpha beta))"
  by pat_completeness auto

termination
  by (relation "measure (\<lambda>(board, depth, alpha, beta, maximizing_player). depth)") auto

declare minimax.simps [simp del]

text \<open>The bodies of the two loops of \<open>minimax\<close> at a node, as functions of the column and the moving bound.\<close>

abbreviation max_child :: "int list list \<Rightarrow> nat \<Rightarrow> ext \<Rightarrow> nat \<Rightarrow> ext \<Rightarrow> error + ext" where
  "max_child b d beta \<equiv> (\<lambda>col alpha.
     case drop_piece b (get_next_open_row b col) col AI_PIECE of
       Inl e \<Rightarrow> Inl e
     | Inr board_copy \<Rightarrow>
         (case minimax board_copy d alpha beta False of
            Inl e \<Rightarrow> Inl e
          | Inr r \<Rightarrow> Inr (snd r)))"

abbreviation min_child :: "int list list \<Rightarrow> nat \<Rightarrow> ext \<Rightarrow> nat \<Rightarrow> ext \<Rightarrow> error + ext" where
  "min_child b d alpha \<equiv> (\<lambda>col beta.
     case drop_piece b (get_next_open_row b col) col PLAYER_PIECE of
       Inl e \<Rightarrow> Inl e
     | Inr board_copy \<Rightarrow>
         (case minimax board_copy d alpha beta True of
            Inl e \<Rightarrow> Inl e
          | Inr r \<Rightarrow> Inr (snd r)))"


text \<open>
  The body of \<^verbatim>\<open>get_best_move\<close>, given \<^verbatim>\<open>self.depth\<close> and \<^verbatim>\<open>game.board\<close>; the method
  itself is defined below, once the two objects are.
\<close>

definition get_best_move_depth :: "nat \<Rightarrow> board \<Rightarrow> error + nat option" where
  "get_best_move_depth depth game_board =
     (let board = game_board
      in case minimax board depth MInf PInf True of
           Inl e \<Rightarrow> Inl e
         | Inr (move, _) \<Rightarrow> Inr move)"

section \<open>Unpruned exhaustive search over the same tree\<close>

text \<open>
  The reference for the pruning-equivalence property: the same tree, the same ascending
  move order and the same strict update rule, with no bounds and no \<^verbatim>\<open>break\<close>.
\<close>

fun exh_max_loop :: "(nat \<Rightarrow> error + ext) \<Rightarrow> nat list \<Rightarrow> ext \<Rightarrow> nat
    \<Rightarrow> error + (nat option \<times> ext)" where
  "exh_max_loop child [] value column = Inr (Some column, value)"
| "exh_max_loop child (col # cols) value column =
     (case child col of
        Inl e \<Rightarrow> Inl e
      | Inr new_score \<Rightarrow>
          (let (value, column) =
                 (if new_score > value then (new_score, col) else (value, column))
           in exh_max_loop child cols value column))"

fun exh_min_loop :: "(nat \<Rightarrow> error + ext) \<Rightarrow> nat list \<Rightarrow> ext \<Rightarrow> nat
    \<Rightarrow> error + (nat option \<times> ext)" where
  "exh_min_loop child [] value column = Inr (Some column, value)"
| "exh_min_loop child (col # cols) value column =
     (case child col of
        Inl e \<Rightarrow> Inl e
      | Inr new_score \<Rightarrow>
          (let (value, column) =
                 (if new_score < value then (new_score, col) else (value, column))
           in exh_min_loop child cols value column))"

lemma exh_max_loop_cong [fundef_cong]:
  assumes "cols = cols'" "value = value'" "column = column'"
    and "\<And>col. col \<in> set cols' \<Longrightarrow> child col = child' col"
  shows "exh_max_loop child cols value column = exh_max_loop child' cols' value' column'"
proof -
  have "exh_max_loop child cols' v c = exh_max_loop child' cols' v c" for v c
    using assms(4)
    by (induction cols' arbitrary: v c) (auto split: sum.splits prod.splits simp: Let_def)
  then show ?thesis using assms by simp
qed

lemma exh_min_loop_cong [fundef_cong]:
  assumes "cols = cols'" "value = value'" "column = column'"
    and "\<And>col. col \<in> set cols' \<Longrightarrow> child col = child' col"
  shows "exh_min_loop child cols value column = exh_min_loop child' cols' value' column'"
proof -
  have "exh_min_loop child cols' v c = exh_min_loop child' cols' v c" for v c
    using assms(4)
    by (induction cols' arbitrary: v c) (auto split: sum.splits prod.splits simp: Let_def)
  then show ?thesis using assms by simp
qed

function exhaustive :: "board \<Rightarrow> nat \<Rightarrow> bool \<Rightarrow> error + (nat option \<times> ext)" where
  "exhaustive board depth maximizing_player =
     (let valid_moves = get_valid_moves board;
          is_terminal = is_terminal_node board
      in if depth = 0 \<or> is_terminal then
           (if is_terminal then
              (if winning_move board AI_PIECE then Inr (None, Fin 100000000)
               else if winning_move board PLAYER_PIECE then Inr (None, Fin (- 100000000))
               else Inr (None, Fin 0))
            else Inr (None, Fin (score_position board AI_PIECE)))
         else if maximizing_player then
           (case valid_moves of
              [] \<Rightarrow> Inl IndexError
            | column # _ \<Rightarrow>
                exh_max_loop (\<lambda>col.
                    case drop_piece board (get_next_open_row board col) col AI_PIECE of
                      Inl e \<Rightarrow> Inl e
                    | Inr board_copy \<Rightarrow>
                        (case exhaustive board_copy (depth - 1) False of
                           Inl e \<Rightarrow> Inl e
                         | Inr r \<Rightarrow> Inr (snd r)))
                  valid_moves MInf column)
         else
           (case valid_moves of
              [] \<Rightarrow> Inl IndexError
            | column # _ \<Rightarrow>
                exh_min_loop (\<lambda>col.
                    case drop_piece board (get_next_open_row board col) col PLAYER_PIECE of
                      Inl e \<Rightarrow> Inl e
                    | Inr board_copy \<Rightarrow>
                        (case exhaustive board_copy (depth - 1) True of
                           Inl e \<Rightarrow> Inl e
                         | Inr r \<Rightarrow> Inr (snd r)))
                  valid_moves PInf column))"
  by pat_completeness auto

termination
  by (relation "measure (\<lambda>(board, depth, maximizing_player). depth)") auto

declare exhaustive.simps [simp del]

abbreviation exh_max_child :: "int list list \<Rightarrow> nat \<Rightarrow> nat \<Rightarrow> error + ext" where
  "exh_max_child b d \<equiv> (\<lambda>col.
     case drop_piece b (get_next_open_row b col) col AI_PIECE of
       Inl e \<Rightarrow> Inl e
     | Inr board_copy \<Rightarrow>
         (case exhaustive board_copy d False of
            Inl e \<Rightarrow> Inl e
          | Inr r \<Rightarrow> Inr (snd r)))"

abbreviation exh_min_child :: "int list list \<Rightarrow> nat \<Rightarrow> nat \<Rightarrow> error + ext" where
  "exh_min_child b d \<equiv> (\<lambda>col.
     case drop_piece b (get_next_open_row b col) col PLAYER_PIECE of
       Inl e \<Rightarrow> Inl e
     | Inr board_copy \<Rightarrow>
         (case exhaustive board_copy d True of
            Inl e \<Rightarrow> Inl e
          | Inr r \<Rightarrow> Inr (snd r)))"

text \<open>
  What a search with the window \<open>(alpha, beta)\<close> promises about its score \<open>v\<close>, given the
  exhaustive score \<open>m\<close>: exact inside the window, and a bound on the right side of \<open>m\<close>
  when it falls outside.
\<close>

definition agrees_within :: "ext \<Rightarrow> ext \<Rightarrow> ext \<Rightarrow> ext \<Rightarrow> bool" where
  "agrees_within alpha beta v m \<longleftrightarrow>
     (v \<le> alpha \<longrightarrow> m \<le> v) \<and> (beta \<le> v \<longrightarrow> v \<le> m) \<and> (alpha < v \<and> v < beta \<longrightarrow> v = m)"

section \<open>The search over a store of arrays\<close>

text \<open>
  To reason about mutation the arrays live in a store: an address is an index into
  the list of all arrays allocated so far. \<^verbatim>\<open>board.copy()\<close> of a NumPy array allocates
  a new array holding the same cells, and \<^verbatim>\<open>board_copy[row][col] = piece\<close> writes into
  the array at the address \<open>board_copy\<close>. The loops read \<^verbatim>\<open>board\<close> again at every
  iteration, from the store as the previous iterations left it.
\<close>

type_synonym addr = nat
type_synonym store = "board list"

definition ndarray_copy :: "store \<Rightarrow> addr \<Rightarrow> addr \<times> store" where
  "ndarray_copy s a = (length s, s @ [s ! a])"

definition drop_piece_st :: "store \<Rightarrow> addr \<Rightarrow> int \<Rightarrow> nat \<Rightarrow> int \<Rightarrow> error + store" where
  "drop_piece_st s a row col piece =
     (case drop_piece (s ! a) row col piece of
        Inl e \<Rightarrow> Inl e
      | Inr arr \<Rightarrow> Inr (s[a := arr]))"

fun max_loop_st :: "(nat \<Rightarrow> ext \<Rightarrow> store \<Rightarrow> error + (ext \<times> store)) \<Rightarrow> nat list \<Rightarrow> ext \<Rightarrow> nat
    \<Rightarrow> ext \<Rightarrow> ext \<Rightarrow> store \<Rightarrow> error + ((nat option \<times> ext) \<times> store)" where
  "max_loop_st child [] value column alpha beta s = Inr ((Some column, value), s)"
| "max_loop_st child (col # cols) value column alpha beta s =
     (case child col alpha s of
        Inl e \<Rightarrow> Inl e
      | Inr (new_score, s) \<Rightarrow>
          (let (value, column) =
                 (if new_score > value then (new_score, col) else (value, column));
               alpha = max alpha value
           in if alpha \<ge> beta then Inr ((Some column, value), s)
              else max_loop_st child cols value column alpha beta s))"

fun min_loop_st :: "(nat \<Rightarrow> ext \<Rightarrow> store \<Rightarrow> error + (ext \<times> store)) \<Rightarrow> nat list \<Rightarrow> ext \<Rightarrow> nat
    \<Rightarrow> ext \<Rightarrow> ext \<Rightarrow> store \<Rightarrow> error + ((nat option \<times> ext) \<times> store)" where
  "min_loop_st child [] value column alpha beta s = Inr ((Some column, value), s)"
| "min_loop_st child (col # cols) value column alpha beta s =
     (case child col beta s of
        Inl e \<Rightarrow> Inl e
      | Inr (new_score, s) \<Rightarrow>
          (let (value, column) =
                 (if new_score < value then (new_score, col) else (value, column));
               beta = min beta value
           in if alpha \<ge> beta then Inr ((Some column, value), s)
              else min_loop_st child cols value column alpha beta s))"

lemma max_loop_st_cong [fundef_cong]:
  assumes "cols = cols'" "value = value'" "column = column'" "alpha = alpha'" "beta = beta'"
    "s = s'"
    and "\<And>col a t. col \<in> set cols' \<Longrightarrow> child col a t = child' col a t"
  shows "max_loop_st child cols value column alpha beta s
       = max_loop_st child' cols' value' column' alpha' beta' s'"
proof -
  have "max_loop_st child cols' v c a b t = max_loop_st child' cols' v c a b t" for v c a b t
    using assms(7)
    by (induction cols' arbitrary: v c a b t) (auto split: sum.splits prod.splits simp: Let_def)
  then show ?thesis using assms by simp
qed

lemma min_loop_st_cong [fundef_cong]:
  assumes "cols = cols'" "value = value'" "column = column'" "alpha = alpha'" "beta = beta'"
    "s = s'"
    and "\<And>col a t. col \<in> set cols' \<Longrightarrow> child col a t = child' col a t"
  shows "min_loop_st child cols value column alpha beta s
       = min_loop_st child' cols' value' column' alpha' beta' s'"
proof -
  have "min_loop_st child cols' v c a b t = min_loop_st child' cols' v c a b t" for v c a b t
    using assms(7)
    by (induction cols' arbitrary: v c a b t) (auto split: sum.splits prod.splits simp: Let_def)
  then show ?thesis using assms by simp
qed

function minimax_st :: "store \<Rightarrow> addr \<Rightarrow> nat \<Rightarrow> ext \<Rightarrow> ext \<Rightarrow> bool
    \<Rightarrow> error + ((nat option \<times> ext) \<times> store)" where
  "minimax_st s board depth alpha beta maximizing_player =
     (let valid_moves = get_valid_moves (s ! board);
          is_terminal = is_terminal_node (s ! board)
      in if depth = 0 \<or> is_terminal then
           (if is_terminal then
              (if winning_move (s ! board) AI_PIECE then Inr ((None, Fin 100000000), s)
               else if winning_move (s ! board) PLAYER_PIECE
                 then Inr ((None, Fin (- 100000000)), s)
               else Inr ((None, Fin 0), s))
            else Inr ((None, Fin (score_position (s ! board) AI_PIECE)), s))
         else if maximizing_player then
           (case valid_moves of
              [] \<Rightarrow> Inl IndexError
            | column # _ \<Rightarrow>
                max_loop_st (\<lambda>col alpha s.
                    let row = get_next_open_row (s ! board) col;
                        (board_copy, s) = ndarray_copy s board
                    in case drop_piece_st s board_copy row col AI_PIECE of
                         Inl e \<Rightarrow> Inl e
                       | Inr s \<Rightarrow>
                           (case minimax_st s board_copy (depth - 1) alpha beta False of
                              Inl e \<Rightarrow> Inl e
                            | Inr (r, s) \<Rightarrow> Inr (snd r, s)))
                  valid_moves MInf column alpha beta s)
         else
           (case valid_moves of
              [] \<Rightarrow> Inl IndexError
            | column # _ \<Rightarrow>
                min_loop_st (\<lambda>col beta s.
                    let row = get_next_open_row (s ! board) col;
                        (board_copy, s) = ndarray_copy s board
                    in case drop_piece_st s board_copy row col PLAYER_PIECE of
                         Inl e \<Rightarrow> Inl e
                       | Inr s \<Rightarrow>
                           (case minimax_st s board_copy (depth - 1) alpha beta True of
                              Inl e \<Rightarrow> Inl e
                            | Inr (r, s) \<Rightarrow> Inr (snd r, s)))
                  valid_moves PInf column alpha beta s))"
  by pat_completeness auto

termination
  by (relation "measure (\<lambda>(s, board, depth, alpha, beta, maximizing_player). depth)") auto

declare minimax_st.simps [simp del]

abbreviation max_child_st :: "addr \<Rightarrow> nat \<Rightarrow> ext \<Rightarrow> nat \<Rightarrow> ext \<Rightarrow> store \<Rightarrow> error + (ext \<times> store)" where
  "max_child_st a d beta \<equiv> (\<lambda>col alpha s.
     let row = get_next_open_row (s ! a) col;
         (board_copy, s) = ndarray_copy s a
     in case drop_piece_st s board_copy row col AI_PIECE of
          Inl e \<Rightarrow> Inl e
        | Inr s \<Rightarrow>
            (case minimax_st s board_copy d alpha beta False of
               Inl e \<Rightarrow> Inl e
             | Inr (r, s) \<Rightarrow> Inr (snd r, s)))"

abbreviation min_child_st :: "addr \<Rightarrow> nat \<Rightarrow> ext \<Rightarrow> nat \<Rightarrow> ext \<Rightarrow> store \<Rightarrow> error + (ext \<times> store)" where
  "min_child_st a d alpha \<equiv> (\<lambda>col beta s.
     let row = get_next_open_row (s ! a) col;
         (board_copy, s) = ndarray_copy s a
     in case drop_piece_st s board_copy row col PLAYER_PIECE of
          Inl e \<Rightarrow> Inl e
        | Inr s \<Rightarrow>
            (case minimax_st s board_copy d alpha beta True of
               Inl e \<Rightarrow> Inl e
             | Inr (r, s) \<Rightarrow> Inr (snd r, s)))"

text \<open>
  A store \<open>t\<close> preserves a store \<open>s\<close> when every array of \<open>s\<close> is still in \<open>t\<close>, at the
  same address and with the same cells.
\<close>

definition preserves :: "store \<Rightarrow> store \<Rightarrow> bool" where
  "preserves s t \<longleftrightarrow> length s \<le> length t \<and> (\<forall>a < length s. t ! a = s ! a)"

text \<open>
  \<^verbatim>\<open>get_best_move\<close> over the store: \<open>game_board\<close> is the address of \<^verbatim>\<open>game.board\<close>;
  the search runs on a copy of it.
\<close>

definition get_best_move_st :: "store \<Rightarrow> nat \<Rightarrow> addr \<Rightarrow> error + (nat option \<times> store)" where
  "get_best_move_st s depth game_board =
     (let (board, s) = ndarray_copy s game_board
      in case minimax_st s board depth MInf PInf True of
           Inl e \<Rightarrow> Inl e
         | Inr ((move, _), s) \<Rightarrow> Inr (move, s))"

section \<open>The game object (connect4.py) and the AI object\<close>

record Connect4 =
  board :: "int list list"
  game_over :: bool
  turn :: int
  winner :: "int option"

record Connect4AI =
  depth :: nat

definition Connect4_winning_move :: "Connect4 \<Rightarrow> int \<Rightarrow> bool" where
  "Connect4_winning_move self piece \<longleftrightarrow>
     list_ex (\<lambda>row. list_ex (\<lambda>col.
        list_all (\<lambda>i. board self ! row ! (col + i) = piece) [0..<WINDOW_LENGTH])
        [0..<BOARD_WIDTH - 3]) [0..<BOARD_HEIGHT]
   \<or> list_ex (\<lambda>col. list_ex (\<lambda>row.
        list_all (\<lambda>i. board self ! (row + i) ! col = piece) [0..<WINDOW_LENGTH])
        [0..<BOARD_HEIGHT - 3]) [0..<BOARD_WIDTH]
   \<or> list_ex (\<lambda>row. list_ex (\<lambda>col.
        list_all (\<lambda>i. board self ! (row + i) ! (col + i) = piece) [0..<WINDOW_LENGTH])
        [0..<BOARD_WIDTH - 3]) [0..<BOARD_HEIGHT - 3]
   \<or> list_ex (\<lambda>row. list_ex (\<lambda>col.
        list_all (\<lambda>i. board self ! (row - i) ! (col + i) = piece) [0..<WINDOW_LENGTH])
        [0..<BOARD_WIDTH - 3]) [3..<BOARD_HEIGHT]"

definition get_best_move :: "Connect4AI \<Rightarrow> Connect4 \<Rightarrow> error + nat option" where
  "get_best_move self game = get_best_move_depth (depth self) (board game)"

section \<open>Properties stated in the specification's own words\<close>

text \<open>
  A connection: \<open>WINDOW_LENGTH\<close> consecutive cells, all inside the board and all equal to
  the piece, starting anywhere and running along a row, a column or one of the two
  diagonals.
\<close>

definition directions :: "(int \<times> int) list" where
  "directions = [(0, 1), (1, 0), (1, 1), (- 1, 1)]"

definition has_connection :: "int list list \<Rightarrow> int \<Rightarrow> bool" where
  "has_connection b piece \<longleftrightarrow>
     (\<exists>row \<in> {0..<BOARD_HEIGHT}. \<exists>col \<in> {0..<BOARD_WIDTH}. \<exists>(dr, dc) \<in> set directions.
        \<forall>i \<in> {0..<WINDOW_LENGTH}.
          let r = int row + int i * dr; c = int col + int i * dc
          in 0 \<le> r \<and> r < int BOARD_HEIGHT \<and> 0 \<le> c \<and> c < int BOARD_WIDTH
             \<and> b ! nat r ! nat c = piece)"

text \<open>The board with the two sides exchanged, cell by cell.\<close>

definition swap_piece :: "int \<Rightarrow> int" where
  "swap_piece x =
     (if x = PLAYER_PIECE then AI_PIECE else if x = AI_PIECE then PLAYER_PIECE else x)"

definition swap_sides :: "int list list \<Rightarrow> int list list" where
  "swap_sides b = map (map swap_piece) b"


section \<open>Example boards\<close>

definition empty_board :: "int list list" where
  "empty_board = replicate 6 (replicate 7 0)"

definition run4_board :: "int list list" where
  "run4_board = replicate 5 (replicate 7 0) @ [[2, 2, 2, 2, 0, 0, 0]]"

definition run3_board :: "int list list" where
  "run3_board = replicate 5 (replicate 7 0) @ [[2, 2, 2, 0, 1, 1, 1]]"

definition centre_board :: "int list list" where
  "centre_board = replicate 5 (replicate 7 0) @ [[0, 0, 0, 2, 0, 0, 0]]"

definition both_board :: "int list list" where
  "both_board = replicate 4 (replicate 7 0) @ [[1, 1, 1, 1, 0, 0, 0], [2, 2, 2, 2, 0, 0, 0]]"

definition lost_board :: "int list list" where
  "lost_board = replicate 2 (replicate 7 0) @
     [[0, 0, 0, 0, 0, 0, 1], [0, 0, 0, 0, 0, 0, 1], [0, 0, 0, 0, 0, 0, 1],
      [2, 2, 2, 0, 0, 0, 1]]"

definition full_board :: "int list list" where
  "full_board =
     [[1, 1, 2, 2, 1, 1, 2], [2, 2, 1, 1, 2, 2, 1], [1, 1, 2, 2, 1, 1, 2],
      [2, 2, 1, 1, 2, 2, 1], [1, 1, 2, 2, 1, 1, 2], [2, 2, 1, 1, 2, 2, 1]]"


section \<open>Basic facts\<close>

lemma ext_less_simps [simp]:
  "MInf < Fin a" "MInf < PInf" "Fin a < PInf" "\<not> x < MInf" "\<not> PInf < x"
  "Fin a < Fin b \<longleftrightarrow> a < b"
  by (cases x; auto simp: less_ext_def)+

lemma ext_le_simps [simp]:
  "x \<le> PInf" "PInf \<le> x \<longleftrightarrow> x = PInf" "x \<le> MInf \<longleftrightarrow> x = MInf"
  by (cases x; auto)+

lemma wf_board_length: "wf_board b \<Longrightarrow> length b = 6"
  by (simp add: wf_board_def)

lemma wf_board_row: "wf_board b \<Longrightarrow> r < 6 \<Longrightarrow> length (b ! r) = 7"
  by (simp add: wf_board_def list_all_length)

lemma evaluate_window_bounds: "- 4 \<le> evaluate_window w p \<and> evaluate_window w p \<le> 100"
  by (simp add: evaluate_window_def Let_def)

lemma sum_list_bounds:
  fixes f :: "'a \<Rightarrow> int"
  assumes "\<And>x. lo \<le> f x \<and> f x \<le> hi"
  shows "int (length xs) * lo \<le> (\<Sum>x\<leftarrow>xs. f x) \<and> (\<Sum>x\<leftarrow>xs. f x) \<le> int (length xs) * hi"
proof (induction xs)
  case Nil
  show ?case by simp
next
  case (Cons x xs)
  from assms [of x] Cons show ?case by (simp add: algebra_simps)
qed

lemma sum_list_nested_bounds:
  fixes f :: "'a \<Rightarrow> 'b \<Rightarrow> int"
  assumes "\<And>x y. lo \<le> f x y \<and> f x y \<le> hi"
  shows "int (length xs) * (int (length ys) * lo) \<le> (\<Sum>x\<leftarrow>xs. \<Sum>y\<leftarrow>ys. f x y)
       \<and> (\<Sum>x\<leftarrow>xs. \<Sum>y\<leftarrow>ys. f x y) \<le> int (length xs) * (int (length ys) * hi)"
  by (rule sum_list_bounds) (rule sum_list_bounds, rule assms)

lemma score_position_bounds: "- 276 \<le> score_position b p \<and> score_position b p \<le> 6918"
proof -
  let ?ew = "\<lambda>w. evaluate_window w p"
  have c: "count_list (map (\<lambda>row. b ! row ! (7 div 2)) [0..<6]) p \<le> 6"
    using count_le_length [of "map (\<lambda>row. b ! row ! (7 div 2)) [0..<6]" p] by simp
  have h: "- 96 \<le> (\<Sum>row\<leftarrow>[0..<6]. \<Sum>col\<leftarrow>[0..<7 - 3].
             ?ew (map (\<lambda>i. b ! row ! (col + i)) [0..<4]))
         \<and> (\<Sum>row\<leftarrow>[0..<6]. \<Sum>col\<leftarrow>[0..<7 - 3].
             ?ew (map (\<lambda>i. b ! row ! (col + i)) [0..<4])) \<le> 2400"
    using sum_list_nested_bounds [of "- 4" "\<lambda>row col. ?ew (map (\<lambda>i. b ! row ! (col + i)) [0..<4])"
        100 "[0..<6]" "[0..<7 - 3]"] evaluate_window_bounds
    by simp
  have v: "- 84 \<le> (\<Sum>col\<leftarrow>[0..<7]. \<Sum>row\<leftarrow>[0..<6 - 3].
             ?ew (map (\<lambda>i. b ! (row + i) ! col) [0..<4]))
         \<and> (\<Sum>col\<leftarrow>[0..<7]. \<Sum>row\<leftarrow>[0..<6 - 3].
             ?ew (map (\<lambda>i. b ! (row + i) ! col) [0..<4])) \<le> 2100"
    using sum_list_nested_bounds [of "- 4" "\<lambda>col row. ?ew (map (\<lambda>i. b ! (row + i) ! col) [0..<4])"
        100 "[0..<7]" "[0..<6 - 3]"] evaluate_window_bounds
    by simp
  have d1: "- 48 \<le> (\<Sum>row\<leftarrow>[0..<6 - 3]. \<Sum>col\<leftarrow>[0..<7 - 3].
             ?ew (map (\<lambda>i. b ! (row + i) ! (col + i)) [0..<4]))
         \<and> (\<Sum>row\<leftarrow>[0..<6 - 3]. \<Sum>col\<leftarrow>[0..<7 - 3].
             ?ew (map (\<lambda>i. b ! (row + i) ! (col + i)) [0..<4])) \<le> 1200"
    using sum_list_nested_bounds [of "- 4"
        "\<lambda>row col. ?ew (map (\<lambda>i. b ! (row + i) ! (col + i)) [0..<4])"
        100 "[0..<6 - 3]" "[0..<7 - 3]"] evaluate_window_bounds
    by simp
  have d2: "- 48 \<le> (\<Sum>row\<leftarrow>[0..<6 - 3]. \<Sum>col\<leftarrow>[3..<7].
             ?ew (map (\<lambda>i. b ! (row + i) ! (col - i)) [0..<4]))
         \<and> (\<Sum>row\<leftarrow>[0..<6 - 3]. \<Sum>col\<leftarrow>[3..<7].
             ?ew (map (\<lambda>i. b ! (row + i) ! (col - i)) [0..<4])) \<le> 1200"
    using sum_list_nested_bounds [of "- 4"
        "\<lambda>row col. ?ew (map (\<lambda>i. b ! (row + i) ! (col - i)) [0..<4])"
        100 "[0..<6 - 3]" "[3..<7]"] evaluate_window_bounds
    by simp
  show ?thesis
    unfolding score_position_def Let_def using c h v d1 d2 by linarith
qed

section \<open>Connections\<close>

lemma rows_3_to_6:
  "(3 \<le> row \<and> row < 6 \<and> P) = ((row = 3 \<or> row = 4 \<or> row = (5::nat)) \<and> P)"
  by arith

lemma winning_move_iff:
  "winning_move b p \<longleftrightarrow>
     (\<exists>row<6. \<exists>col<4. \<forall>i<4. b ! row ! (col + i) = p)
   \<or> (\<exists>col<7. \<exists>row<3. \<forall>i<4. b ! (row + i) ! col = p)
   \<or> (\<exists>row<3. \<exists>col<4. \<forall>i<4. b ! (row + i) ! (col + i) = p)
   \<or> (\<exists>row. 3 \<le> row \<and> row < 6 \<and> (\<exists>col<4. \<forall>i<4. b ! (row - i) ! (col + i) = p))"
  by (simp add: winning_move_def list_ex_iff list_all_iff Bex_def Ball_def rows_3_to_6)

lemma has_connectionI:
  assumes "row < 6" "col < 7" "(dr, dc) \<in> set directions"
    and "\<And>i. i < 4 \<Longrightarrow> 0 \<le> int row + int i * dr \<and> int row + int i * dr < 6
            \<and> 0 \<le> int col + int i * dc \<and> int col + int i * dc < 7
            \<and> b ! nat (int row + int i * dr) ! nat (int col + int i * dc) = p"
  shows "has_connection b p"
  unfolding has_connection_def Let_def
  using assms by (intro bexI [where x = row] bexI [where x = col] bexI [where x = "(dr, dc)"]) auto

lemma has_connectionE:
  assumes "has_connection b p"
  obtains row col dr dc where "row < 6" "col < 7" "(dr, dc) \<in> set directions"
    "\<And>i. i < 4 \<Longrightarrow> 0 \<le> int row + int i * dr \<and> int row + int i * dr < 6
            \<and> 0 \<le> int col + int i * dc \<and> int col + int i * dc < 7
            \<and> b ! nat (int row + int i * dr) ! nat (int col + int i * dc) = p"
  using assms unfolding has_connection_def Let_def by fastforce

lemma winning_move_has_connection: "winning_move b p \<longleftrightarrow> has_connection b p"
proof
  assume "winning_move b p"
  then consider
      (h) row col where "row < 6" "col < 4" "\<forall>i<4. b ! row ! (col + i) = p"
    | (v) row col where "col < 7" "row < 3" "\<forall>i<4. b ! (row + i) ! col = p"
    | (d) row col where "row < 3" "col < 4" "\<forall>i<4. b ! (row + i) ! (col + i) = p"
    | (a) row col where "3 \<le> row" "row < 6" "col < 4" "\<forall>i<4. b ! (row - i) ! (col + i) = p"
    unfolding winning_move_iff by blast
  then show "has_connection b p"
  proof cases
    case h
    then show ?thesis
      by (intro has_connectionI [of row col 0 1]) (auto simp: directions_def nat_add_distrib)
  next
    case v
    then show ?thesis
      by (intro has_connectionI [of row col 1 0]) (auto simp: directions_def nat_add_distrib)
  next
    case d
    then show ?thesis
      by (intro has_connectionI [of row col 1 1]) (auto simp: directions_def nat_add_distrib)
  next
    case a
    then show ?thesis
      by (intro has_connectionI [of row col "- 1" 1])
         (auto simp: directions_def nat_add_distrib nat_diff_distrib')
  qed
next
  assume hc: "has_connection b p"
  show "winning_move b p"
  proof (rule has_connectionE [OF hc])
  fix row col dr dc
  assume rc: "row < 6" "col < 7" and d: "(dr, dc) \<in> set directions"
    and run: "\<And>i. i < 4 \<Longrightarrow> 0 \<le> int row + int i * dr \<and> int row + int i * dr < 6
            \<and> 0 \<le> int col + int i * dc \<and> int col + int i * dc < 7
            \<and> b ! nat (int row + int i * dr) ! nat (int col + int i * dc) = p"
  have add: "nat (int x + int i) = x + i" for x i by simp
  from d consider "dr = 0 \<and> dc = 1" | "dr = 1 \<and> dc = 0" | "dr = 1 \<and> dc = 1" | "dr = - 1 \<and> dc = 1"
    by (auto simp: directions_def)
  then show ?thesis
  proof cases
    case 1
    with run [of 3] have "col < 4" by simp
    moreover from 1 run have "\<forall>i<4. b ! row ! (col + i) = p" by (auto simp: add)
    ultimately show ?thesis using rc unfolding winning_move_iff by blast
  next
    case 2
    with run [of 3] have "row < 3" by simp
    moreover from 2 run have "\<forall>i<4. b ! (row + i) ! col = p" by (auto simp: add)
    ultimately show ?thesis using rc unfolding winning_move_iff by blast
  next
    case 3
    with run [of 3] have "row < 3" "col < 4" by simp_all
    moreover from 3 run have "\<forall>i<4. b ! (row + i) ! (col + i) = p" by (auto simp: add)
    ultimately show ?thesis unfolding winning_move_iff by blast
  next
    case 4
    with run [of 3] have r: "3 \<le> row" "col < 4" by simp_all
    have "b ! (row - i) ! (col + i) = p" if "i < 4" for i
    proof -
      from that r have "nat (int row + int i * - 1) = row - i" by (simp add: nat_diff_distrib')
      with run [OF that] 4 show ?thesis by (simp add: add)
    qed
    with r rc show ?thesis unfolding winning_move_iff by blast
  qed
  qed
qed

lemma Connect4_winning_move_eq: "Connect4_winning_move game p = winning_move (board game) p"
  by (simp add: Connect4_winning_move_def winning_move_def)

section \<open>Moves\<close>

lemma valid_move_iff: "col \<in> set (get_valid_moves b) \<longleftrightarrow> col < 7 \<and> b ! 0 ! col = 0"
  by (auto simp: get_valid_moves_def)

lemma nonterminal_has_move: "\<not> is_terminal_node b \<Longrightarrow> get_valid_moves b \<noteq> []"
proof -
  assume "\<not> is_terminal_node b"
  then obtain col where "col < 7" "b ! 0 ! col = 0"
    by (auto simp: is_terminal_node_def Let_def list_all_iff)
  then have "col \<in> set (get_valid_moves b)" by (simp add: valid_move_iff)
  then show ?thesis by auto
qed

lemma next_open_row_valid:
  assumes "b ! 0 ! col = 0"
  shows "\<exists>row<6. get_next_open_row b col = int row \<and> b ! row ! col = 0"
proof -
  have "0 \<in> set (rev [0..<6::nat])" by simp
  with assms have "find (\<lambda>row. b ! row ! col = 0) (rev [0..<6]) \<noteq> None"
    unfolding find_None_iff by blast
  then obtain row where f: "find (\<lambda>row. b ! row ! col = 0) (rev [0..<6]) = Some row" by blast
  then have "row \<in> set (rev [0..<6])" "b ! row ! col = 0"
    by (auto simp: find_Some_iff in_set_conv_nth simp del: set_rev set_upt)
  with f show ?thesis by (auto simp: get_next_open_row_def)
qed

lemma drop_piece_wf:
  assumes "wf_board b" "row < 6" "col < 7"
  shows "drop_piece b (int row) col piece = Inr (b[row := (b ! row)[col := piece]])"
    and "wf_board (b[row := (b ! row)[col := piece]])"
  using assms wf_board_row [of b row]
  by (auto simp: drop_piece_def wf_board_def list_all_length nth_list_update)

lemma move_applies:
  assumes "wf_board b" "col \<in> set (get_valid_moves b)"
  shows "\<exists>row<6. get_next_open_row b col = int row \<and> b ! row ! col = 0
           \<and> drop_piece b (get_next_open_row b col) col piece
               = Inr (b[row := (b ! row)[col := piece]])
           \<and> wf_board (b[row := (b ! row)[col := piece]])"
proof -
  from assms(2) have c: "col < 7" "b ! 0 ! col = 0" by (simp_all add: valid_move_iff)
  from next_open_row_valid [OF c(2)] obtain row where
    r: "row < 6" "get_next_open_row b col = int row" "b ! row ! col = 0" by blast
  with drop_piece_wf [OF assms(1) r(1) c(1), of piece] show ?thesis by auto
qed

lemma minimax_base:
  assumes "d = 0 \<or> is_terminal_node b"
  shows "minimax b d alpha beta mx =
     Inr (None, Fin (if winning_move b AI_PIECE then 100000000
                     else if winning_move b PLAYER_PIECE then - 100000000
                     else if list_all (\<lambda>col. b ! 0 ! col \<noteq> EMPTY) [0..<BOARD_WIDTH] then 0
                     else score_position b AI_PIECE))"
  using assms by (subst minimax.simps) (auto simp: Let_def is_terminal_node_def)

section \<open>Exchanging the sides\<close>

lemma count_list_swap: "count_list (map swap_piece w) (swap_piece p) = count_list w p"
  by (induction w) (auto simp: swap_piece_def)

lemma evaluate_window_swap:
  assumes "p = 1 \<or> p = 2"
  shows "evaluate_window (map swap_piece w) (swap_piece p) = evaluate_window w p"
proof -
  have e: "count_list (map swap_piece w) 0 = count_list w 0"
    using count_list_swap [of w 0] by (simp add: swap_piece_def)
  have o1: "count_list (map swap_piece w) 2 = count_list w 1"
    using count_list_swap [of w 1] by (simp add: swap_piece_def)
  have o2: "count_list (map swap_piece w) 1 = count_list w 2"
    using count_list_swap [of w 2] by (simp add: swap_piece_def)
  from assms show ?thesis
  proof
    assume "p = 1"
    then show ?thesis by (simp add: evaluate_window_def Let_def swap_piece_def e o1 o2)
  next
    assume "p = 2"
    then show ?thesis by (simp add: evaluate_window_def Let_def swap_piece_def e o1 o2)
  qed
qed

lemma swap_sides_nth:
  assumes "wf_board b" "r < 6" "c < 7"
  shows "swap_sides b ! r ! c = swap_piece (b ! r ! c)"
  using assms wf_board_row [of b r] by (simp add: swap_sides_def wf_board_length)

lemma score_position_swap:
  assumes "wf_board b" "p = 1 \<or> p = 2"
  shows "score_position (swap_sides b) (swap_piece p) = score_position b p"
proof -
  note n = swap_sides_nth [OF assms(1)]
  have w1: "map (\<lambda>i. swap_sides b ! row ! (col + i)) [0..<4]
          = map swap_piece (map (\<lambda>i. b ! row ! (col + i)) [0..<4])"
    if "row \<in> set [0..<6]" "col \<in> set [0..<7 - 3]" for row col
    using that by (simp add: n)
  have w2: "map (\<lambda>i. swap_sides b ! (row + i) ! col) [0..<4]
          = map swap_piece (map (\<lambda>i. b ! (row + i) ! col) [0..<4])"
    if "col \<in> set [0..<7]" "row \<in> set [0..<6 - 3]" for row col
    using that by (simp add: n)
  have w3: "map (\<lambda>i. swap_sides b ! (row + i) ! (col + i)) [0..<4]
          = map swap_piece (map (\<lambda>i. b ! (row + i) ! (col + i)) [0..<4])"
    if "row \<in> set [0..<6 - 3]" "col \<in> set [0..<7 - 3]" for row col
    using that by (simp add: n)
  have w4: "map (\<lambda>i. swap_sides b ! (row + i) ! (col - i)) [0..<4]
          = map swap_piece (map (\<lambda>i. b ! (row + i) ! (col - i)) [0..<4])"
    if "row \<in> set [0..<6 - 3]" "col \<in> set [3..<7]" for row col
    using that by (auto simp: n)
  have c: "map (\<lambda>row. swap_sides b ! row ! (7 div 2)) [0..<6]
         = map swap_piece (map (\<lambda>row. b ! row ! (7 div 2)) [0..<6])"
    by (simp add: n)
  note ew = evaluate_window_swap [OF assms(2)]
  have s1: "(\<Sum>row\<leftarrow>[0..<6]. \<Sum>col\<leftarrow>[0..<7 - 3].
              evaluate_window (map (\<lambda>i. swap_sides b ! row ! (col + i)) [0..<4]) (swap_piece p))
          = (\<Sum>row\<leftarrow>[0..<6]. \<Sum>col\<leftarrow>[0..<7 - 3].
              evaluate_window (map (\<lambda>i. b ! row ! (col + i)) [0..<4]) p)"
    by (intro arg_cong [where f = sum_list] map_cong refl) (simp only: w1 ew)
  have s2: "(\<Sum>col\<leftarrow>[0..<7]. \<Sum>row\<leftarrow>[0..<6 - 3].
              evaluate_window (map (\<lambda>i. swap_sides b ! (row + i) ! col) [0..<4]) (swap_piece p))
          = (\<Sum>col\<leftarrow>[0..<7]. \<Sum>row\<leftarrow>[0..<6 - 3].
              evaluate_window (map (\<lambda>i. b ! (row + i) ! col) [0..<4]) p)"
    by (intro arg_cong [where f = sum_list] map_cong refl) (simp only: w2 ew)
  have s3: "(\<Sum>row\<leftarrow>[0..<6 - 3]. \<Sum>col\<leftarrow>[0..<7 - 3].
              evaluate_window (map (\<lambda>i. swap_sides b ! (row + i) ! (col + i)) [0..<4]) (swap_piece p))
          = (\<Sum>row\<leftarrow>[0..<6 - 3]. \<Sum>col\<leftarrow>[0..<7 - 3].
              evaluate_window (map (\<lambda>i. b ! (row + i) ! (col + i)) [0..<4]) p)"
    by (intro arg_cong [where f = sum_list] map_cong refl) (simp only: w3 ew)
  have s4: "(\<Sum>row\<leftarrow>[0..<6 - 3]. \<Sum>col\<leftarrow>[3..<7].
              evaluate_window (map (\<lambda>i. swap_sides b ! (row + i) ! (col - i)) [0..<4]) (swap_piece p))
          = (\<Sum>row\<leftarrow>[0..<6 - 3]. \<Sum>col\<leftarrow>[3..<7].
              evaluate_window (map (\<lambda>i. b ! (row + i) ! (col - i)) [0..<4]) p)"
    by (intro arg_cong [where f = sum_list] map_cong refl) (simp only: w4 ew)
  show ?thesis
    unfolding score_position_def Let_def s1 s2 s3 s4 c count_list_swap ..
qed

section \<open>The loops and the search return a column and a bounded score\<close>

lemma max_loop_result:
  assumes "\<And>col a. col \<in> set cols \<Longrightarrow> \<exists>v. child col a = Inr v \<and> lo \<le> v \<and> v \<le> hi"
  shows "\<exists>c v. max_loop child cols v0 column alpha beta = Inr (Some c, v)
           \<and> ((c = column \<and> v = v0) \<or> (c \<in> set cols \<and> lo \<le> v \<and> v \<le> hi))"
  using assms
proof (induction cols arbitrary: v0 column alpha)
  case Nil
  show ?case by simp
next
  case (Cons col cols)
  from Cons.prems [of col alpha] obtain v where
    v: "child col alpha = Inr v" "lo \<le> v" "v \<le> hi" by auto
  define v1 where "v1 = (if v0 < v then v else v0)"
  define c1 where "c1 = (if v0 < v then col else column)"
  have step: "max_loop child (col # cols) v0 column alpha beta =
      (if beta \<le> max alpha v1 then Inr (Some c1, v1)
       else max_loop child cols v1 c1 (max alpha v1) beta)"
    by (simp add: v v1_def c1_def Let_def)
  have here: "(c1 = column \<and> v1 = v0) \<or> (c1 = col \<and> lo \<le> v1 \<and> v1 \<le> hi)"
    using v by (auto simp: v1_def c1_def)
  show ?case
  proof (cases "beta \<le> max alpha v1")
    case True
    with step here show ?thesis by auto
  next
    case False
    have "\<exists>c w. max_loop child cols v1 c1 (max alpha v1) beta = Inr (Some c, w)
           \<and> ((c = c1 \<and> w = v1) \<or> (c \<in> set cols \<and> lo \<le> w \<and> w \<le> hi))"
      by (rule Cons.IH) (simp add: Cons.prems)
    with step False here show ?thesis by auto
  qed
qed

lemma max_loop_first:
  assumes "\<And>col a. col \<in> set cols \<Longrightarrow> \<exists>v. child col a = Inr v \<and> lo \<le> v \<and> v \<le> hi"
    and "cols \<noteq> []" "v0 < lo"
  shows "\<exists>c v. max_loop child cols v0 column alpha beta = Inr (Some c, v)
           \<and> c \<in> set cols \<and> lo \<le> v \<and> v \<le> hi"
proof -
  from assms(2) obtain col rest where cols: "cols = col # rest" by (cases cols) auto
  from assms(1) [of col alpha] cols obtain v where
    v: "child col alpha = Inr v" "lo \<le> v" "v \<le> hi" by auto
  with assms(3) have lt: "v0 < v" by simp
  have step: "max_loop child (col # rest) v0 column alpha beta =
      (if beta \<le> max alpha v then Inr (Some col, v)
       else max_loop child rest v col (max alpha v) beta)"
    by (simp add: v lt Let_def)
  show ?thesis
  proof (cases "beta \<le> max alpha v")
    case True
    with step v cols show ?thesis by auto
  next
    case False
    have "\<exists>c w. max_loop child rest v col (max alpha v) beta = Inr (Some c, w)
           \<and> ((c = col \<and> w = v) \<or> (c \<in> set rest \<and> lo \<le> w \<and> w \<le> hi))"
      by (rule max_loop_result) (simp add: assms(1) cols)
    with step False v cols show ?thesis by auto
  qed
qed

lemma min_loop_result:
  assumes "\<And>col a. col \<in> set cols \<Longrightarrow> \<exists>v. child col a = Inr v \<and> lo \<le> v \<and> v \<le> hi"
  shows "\<exists>c v. min_loop child cols v0 column alpha beta = Inr (Some c, v)
           \<and> ((c = column \<and> v = v0) \<or> (c \<in> set cols \<and> lo \<le> v \<and> v \<le> hi))"
  using assms
proof (induction cols arbitrary: v0 column beta)
  case Nil
  show ?case by simp
next
  case (Cons col cols)
  from Cons.prems [of col beta] obtain v where
    v: "child col beta = Inr v" "lo \<le> v" "v \<le> hi" by auto
  define v1 where "v1 = (if v < v0 then v else v0)"
  define c1 where "c1 = (if v < v0 then col else column)"
  have step: "min_loop child (col # cols) v0 column alpha beta =
      (if min beta v1 \<le> alpha then Inr (Some c1, v1)
       else min_loop child cols v1 c1 alpha (min beta v1))"
    by (simp add: v v1_def c1_def Let_def)
  have here: "(c1 = column \<and> v1 = v0) \<or> (c1 = col \<and> lo \<le> v1 \<and> v1 \<le> hi)"
    using v by (auto simp: v1_def c1_def)
  show ?case
  proof (cases "min beta v1 \<le> alpha")
    case True
    with step here show ?thesis by auto
  next
    case False
    have "\<exists>c w. min_loop child cols v1 c1 alpha (min beta v1) = Inr (Some c, w)
           \<and> ((c = c1 \<and> w = v1) \<or> (c \<in> set cols \<and> lo \<le> w \<and> w \<le> hi))"
      by (rule Cons.IH) (simp add: Cons.prems)
    with step False here show ?thesis by auto
  qed
qed

lemma min_loop_first:
  assumes "\<And>col a. col \<in> set cols \<Longrightarrow> \<exists>v. child col a = Inr v \<and> lo \<le> v \<and> v \<le> hi"
    and "cols \<noteq> []" "hi < v0"
  shows "\<exists>c v. min_loop child cols v0 column alpha beta = Inr (Some c, v)
           \<and> c \<in> set cols \<and> lo \<le> v \<and> v \<le> hi"
proof -
  from assms(2) obtain col rest where cols: "cols = col # rest" by (cases cols) auto
  from assms(1) [of col beta] cols obtain v where
    v: "child col beta = Inr v" "lo \<le> v" "v \<le> hi" by auto
  with assms(3) have lt: "v < v0" by simp
  have step: "min_loop child (col # rest) v0 column alpha beta =
      (if min beta v \<le> alpha then Inr (Some col, v)
       else min_loop child rest v col alpha (min beta v))"
    by (simp add: v lt Let_def)
  show ?thesis
  proof (cases "min beta v \<le> alpha")
    case True
    with step v cols show ?thesis by auto
  next
    case False
    have "\<exists>c w. min_loop child rest v col alpha (min beta v) = Inr (Some c, w)
           \<and> ((c = col \<and> w = v) \<or> (c \<in> set rest \<and> lo \<le> w \<and> w \<le> hi))"
      by (rule min_loop_result) (simp add: assms(1) cols)
    with step False v cols show ?thesis by auto
  qed
qed

lemma minimax_max_step:
  assumes "\<not> is_terminal_node b" "get_valid_moves b = column # rest"
  shows "minimax b (Suc d) alpha beta True
       = max_loop (max_child b d beta) (column # rest) MInf column alpha beta"
  using assms
  by (subst minimax.simps, unfold diff_Suc_1) (simp add: Let_def del: max_loop.simps)

lemma minimax_min_step:
  assumes "\<not> is_terminal_node b" "get_valid_moves b = column # rest"
  shows "minimax b (Suc d) alpha beta False
       = min_loop (min_child b d alpha) (column # rest) PInf column alpha beta"
  using assms
  by (subst minimax.simps, unfold diff_Suc_1) (simp add: Let_def del: min_loop.simps)

lemma minimax_total:
  assumes "wf_board b"
  shows "\<exists>c v. minimax b d alpha beta mx = Inr (c, v)
           \<and> Fin (- 100000000) \<le> v \<and> v \<le> Fin 100000000
           \<and> (if d = 0 \<or> is_terminal_node b then c = None
               else \<exists>col \<in> set (get_valid_moves b). c = Some col)"
  using assms
proof (induction d arbitrary: b alpha beta mx)
  case 0
  show ?case
    using score_position_bounds [of b 2] by (simp add: minimax_base)
next
  case (Suc d)
  show ?case
  proof (cases "is_terminal_node b")
    case True
    then show ?thesis
      using score_position_bounds [of b 2] by (simp add: minimax_base)
  next
    case False
    then obtain column rest where vm: "get_valid_moves b = column # rest"
      using nonterminal_has_move [of b] by (cases "get_valid_moves b") auto
    let ?lo = "Fin (- 100000000)" and ?hi = "Fin 100000000"
    have child: "\<exists>v. (case drop_piece b (get_next_open_row b col) col piece of
                   Inl e \<Rightarrow> Inl e
                 | Inr board_copy \<Rightarrow>
                     (case minimax board_copy d a a' mx' of
                        Inl e \<Rightarrow> Inl e | Inr r \<Rightarrow> Inr (snd r))) = Inr v \<and> ?lo \<le> v \<and> v \<le> ?hi"
      if "col \<in> set (column # rest)" for col a a' mx' piece
    proof -
      from that vm have "col \<in> set (get_valid_moves b)" by simp
      from move_applies [OF Suc.prems this, of piece] obtain b' where
        b': "drop_piece b (get_next_open_row b col) col piece = Inr b'" "wf_board b'" by blast
      from Suc.IH [OF b'(2), of a a' mx'] b'(1) show ?thesis by auto
    qed
    show ?thesis
    proof (cases mx)
      case True
      have "\<exists>c v. max_loop (max_child b d beta) (column # rest) MInf column alpha beta
                = Inr (Some c, v)
            \<and> c \<in> set (column # rest) \<and> ?lo \<le> v \<and> v \<le> ?hi"
        by (rule max_loop_first) (use child in simp_all)
      with False True vm show ?thesis
        by (auto simp: minimax_max_step)
    next
      case mn: False
      have "\<exists>c v. min_loop (min_child b d alpha) (column # rest) PInf column alpha beta
                = Inr (Some c, v)
            \<and> c \<in> set (column # rest) \<and> ?lo \<le> v \<and> v \<le> ?hi"
        by (rule min_loop_first) (use child in simp_all)
      with False mn vm show ?thesis
        by (auto simp: minimax_min_step)
    qed
  qed
qed

section \<open>Pruning does not change the result at the root\<close>

lemma exh_max_loop_ge:
  assumes "\<And>col. col \<in> set cols \<Longrightarrow> \<exists>m. g col = Inr m"
  shows "\<exists>c m. exh_max_loop g cols m0 column = Inr (c, m) \<and> m0 \<le> m"
  using assms
proof (induction cols arbitrary: m0 column)
  case Nil
  show ?case by simp
next
  case (Cons col cols)
  from Cons.prems [of col] obtain m where m: "g col = Inr m" by auto
  have "\<exists>c mf. exh_max_loop g cols (if m0 < m then m else m0) (if m0 < m then col else column)
            = Inr (c, mf) \<and> (if m0 < m then m else m0) \<le> mf"
    by (rule Cons.IH) (simp add: Cons.prems)
  then show ?case using m by (auto simp: Let_def split: if_splits)
qed

lemma exh_min_loop_le:
  assumes "\<And>col. col \<in> set cols \<Longrightarrow> \<exists>m. g col = Inr m"
  shows "\<exists>c m. exh_min_loop g cols m0 column = Inr (c, m) \<and> m \<le> m0"
  using assms
proof (induction cols arbitrary: m0 column)
  case Nil
  show ?case by simp
next
  case (Cons col cols)
  from Cons.prems [of col] obtain m where m: "g col = Inr m" by auto
  have "\<exists>c mf. exh_min_loop g cols (if m < m0 then m else m0) (if m < m0 then col else column)
            = Inr (c, mf) \<and> mf \<le> (if m < m0 then m else m0)"
    by (rule Cons.IH) (simp add: Cons.prems)
  then show ?case using m by (auto simp: Let_def split: if_splits)
qed

lemma max_loop_agrees:
  assumes "\<And>col a. col \<in> set cols \<Longrightarrow> a < beta \<Longrightarrow>
             \<exists>v m. f col a = Inr v \<and> g col = Inr m \<and> agrees_within a beta v m"
    and "alpha = max alpha0 v0" "alpha < beta"
    and "v0 \<le> alpha0 \<longrightarrow> m0 \<le> v0" "alpha0 < v0 \<longrightarrow> v0 = m0"
  shows "\<exists>c v c' m. max_loop f cols v0 column alpha beta = Inr (c, v)
           \<and> exh_max_loop g cols m0 column' = Inr (c', m) \<and> agrees_within alpha0 beta v m"
  using assms
proof (induction cols arbitrary: v0 column alpha m0 column')
  case Nil
  then show ?case by (auto simp: agrees_within_def max_def split: if_splits)
next
  case (Cons col cols)
  from Cons.prems(1) [of col alpha] Cons.prems(3) obtain v m where
    vm: "f col alpha = Inr v" "g col = Inr m" and ag: "agrees_within alpha beta v m" by auto
  define v1 where "v1 = (if v0 < v then v else v0)"
  define c1 where "c1 = (if v0 < v then col else column)"
  define m1 where "m1 = (if m0 < m then m else m0)"
  define d1 where "d1 = (if m0 < m then col else column')"
  have step: "max_loop f (col # cols) v0 column alpha beta =
      (if beta \<le> max alpha v1 then Inr (Some c1, v1)
       else max_loop f cols v1 c1 (max alpha v1) beta)"
    by (simp add: vm v1_def c1_def Let_def)
  have estep: "exh_max_loop g (col # cols) m0 column' = exh_max_loop g cols m1 d1"
    by (simp add: vm m1_def d1_def Let_def)
  have rest: "\<exists>m. g c = Inr m" if "c \<in> set cols" for c
    using Cons.prems(1) [of c alpha] Cons.prems(3) that by auto
  show ?case
  proof (cases "beta \<le> max alpha v1")
    case True
    from exh_max_loop_ge [of cols g m1 d1] rest obtain c' mf where
      e: "exh_max_loop g cols m1 d1 = Inr (c', mf)" "m1 \<le> mf" by blast
    have "m \<le> m1" by (auto simp: m1_def)
    with e(2) have "m \<le> mf" by simp
    moreover from True Cons.prems(2,3) have "beta \<le> v1" "v1 = v"
      by (auto simp: max_def v1_def split: if_splits)
    moreover from this Cons.prems(2,3) have "alpha0 < v1"
      by (auto simp: max_def split: if_splits)
    ultimately have "agrees_within alpha0 beta v1 mf"
      using ag by (auto simp: agrees_within_def)
    with step estep e True show ?thesis by auto
  next
    case False
    have p2: "max alpha v1 = max alpha0 v1"
      using Cons.prems(2) by (auto simp: max_def v1_def split: if_splits)
    have p3: "max alpha v1 < beta" using False by (simp add: not_le)
    have p4: "v1 \<le> alpha0 \<longrightarrow> m1 \<le> v1"
      using Cons.prems(2,4,5) ag
      by (auto simp: agrees_within_def max_def v1_def m1_def split: if_splits)
    have p5: "alpha0 < v1 \<longrightarrow> v1 = m1"
      using Cons.prems(2,3,4,5) ag False
      by (auto simp: agrees_within_def max_def v1_def m1_def split: if_splits)
    have "\<exists>c w c' mf. max_loop f cols v1 c1 (max alpha v1) beta = Inr (c, w)
           \<and> exh_max_loop g cols m1 d1 = Inr (c', mf) \<and> agrees_within alpha0 beta w mf"
      using Cons.prems(1) p2 p3 p4 p5 by (intro Cons.IH) auto
    with step estep False show ?thesis by auto
  qed
qed


lemma min_loop_agrees:
  assumes "\<And>col a. col \<in> set cols \<Longrightarrow> alpha < a \<Longrightarrow>
             \<exists>v m. f col a = Inr v \<and> g col = Inr m \<and> agrees_within alpha a v m"
    and "beta = min beta0 v0" "alpha < beta"
    and "beta0 \<le> v0 \<longrightarrow> v0 \<le> m0" "v0 < beta0 \<longrightarrow> v0 = m0"
  shows "\<exists>c v c' m. min_loop f cols v0 column alpha beta = Inr (c, v)
           \<and> exh_min_loop g cols m0 column' = Inr (c', m) \<and> agrees_within alpha beta0 v m"
  using assms
proof (induction cols arbitrary: v0 column beta m0 column')
  case Nil
  then show ?case by (auto simp: agrees_within_def min_def split: if_splits)
next
  case (Cons col cols)
  from Cons.prems(1) [of col beta] Cons.prems(3) obtain v m where
    vm: "f col beta = Inr v" "g col = Inr m" and ag: "agrees_within alpha beta v m" by auto
  define v1 where "v1 = (if v < v0 then v else v0)"
  define c1 where "c1 = (if v < v0 then col else column)"
  define m1 where "m1 = (if m < m0 then m else m0)"
  define d1 where "d1 = (if m < m0 then col else column')"
  have step: "min_loop f (col # cols) v0 column alpha beta =
      (if min beta v1 \<le> alpha then Inr (Some c1, v1)
       else min_loop f cols v1 c1 alpha (min beta v1))"
    by (simp add: vm v1_def c1_def Let_def)
  have estep: "exh_min_loop g (col # cols) m0 column' = exh_min_loop g cols m1 d1"
    by (simp add: vm m1_def d1_def Let_def)
  have rest: "\<exists>m. g c = Inr m" if "c \<in> set cols" for c
    using Cons.prems(1) [of c beta] Cons.prems(3) that by auto
  show ?case
  proof (cases "min beta v1 \<le> alpha")
    case True
    from exh_min_loop_le [of cols g m1 d1] rest obtain c' mf where
      e: "exh_min_loop g cols m1 d1 = Inr (c', mf)" "mf \<le> m1" by blast
    have "m1 \<le> m" by (auto simp: m1_def)
    with e(2) have "mf \<le> m" by simp
    moreover from True Cons.prems(2,3) have "v1 \<le> alpha" "v1 = v"
      by (auto simp: min_def v1_def split: if_splits)
    moreover from this Cons.prems(2,3) have "v1 < beta0"
      by (auto simp: min_def split: if_splits)
    ultimately have "agrees_within alpha beta0 v1 mf"
      using ag by (auto simp: agrees_within_def)
    with step estep e True show ?thesis by auto
  next
    case False
    have p2: "min beta v1 = min beta0 v1"
      using Cons.prems(2) by (auto simp: min_def v1_def split: if_splits)
    have p3: "alpha < min beta v1" using False by (simp add: not_le)
    have p4: "beta0 \<le> v1 \<longrightarrow> v1 \<le> m1"
      using Cons.prems(2,4,5) ag
      by (auto simp: agrees_within_def min_def v1_def m1_def split: if_splits)
    have p5: "v1 < beta0 \<longrightarrow> v1 = m1"
      using Cons.prems(2,3,4,5) ag False
      by (auto simp: agrees_within_def min_def v1_def m1_def split: if_splits)
    have "\<exists>c w c' mf. min_loop f cols v1 c1 alpha (min beta v1) = Inr (c, w)
           \<and> exh_min_loop g cols m1 d1 = Inr (c', mf) \<and> agrees_within alpha beta0 w mf"
      using Cons.prems(1) p2 p3 p4 p5 by (intro Cons.IH) auto
    with step estep False show ?thesis by auto
  qed
qed

lemma exhaustive_base:
  assumes "d = 0 \<or> is_terminal_node b"
  shows "exhaustive b d mx = minimax b d alpha beta mx'"
  using assms
  by (subst exhaustive.simps, subst minimax.simps) (auto simp: Let_def)

lemma exhaustive_max_step:
  assumes "\<not> is_terminal_node b" "get_valid_moves b = column # rest"
  shows "exhaustive b (Suc d) True
       = exh_max_loop (exh_max_child b d) (column # rest) MInf column"
  using assms
  by (subst exhaustive.simps, unfold diff_Suc_1) (simp add: Let_def del: exh_max_loop.simps)

lemma exhaustive_min_step:
  assumes "\<not> is_terminal_node b" "get_valid_moves b = column # rest"
  shows "exhaustive b (Suc d) False
       = exh_min_loop (exh_min_child b d) (column # rest) PInf column"
  using assms
  by (subst exhaustive.simps, unfold diff_Suc_1) (simp add: Let_def del: exh_min_loop.simps)

lemma minimax_agrees:
  assumes "wf_board b" "alpha < beta"
  shows "\<exists>c v c' m. minimax b d alpha beta mx = Inr (c, v) \<and> exhaustive b d mx = Inr (c', m)
           \<and> agrees_within alpha beta v m"
  using assms
proof (induction d arbitrary: b alpha beta mx)
  case 0
  show ?case
    using minimax_total [OF "0.prems"(1), of 0 alpha beta mx]
      exhaustive_base [of 0 b mx alpha beta mx]
    by (auto simp: agrees_within_def)
next
  case (Suc d)
  show ?case
  proof (cases "is_terminal_node b")
    case True
    then show ?thesis
      using minimax_total [OF Suc.prems(1), of "Suc d" alpha beta mx]
        exhaustive_base [of "Suc d" b mx alpha beta mx]
      by (auto simp: agrees_within_def)
  next
    case False
    then obtain column rest where vm: "get_valid_moves b = column # rest"
      using nonterminal_has_move [of b] by (cases "get_valid_moves b") auto
    have child: "\<exists>v m. (case drop_piece b (get_next_open_row b col) col piece of
                   Inl e \<Rightarrow> Inl e
                 | Inr board_copy \<Rightarrow>
                     (case minimax board_copy d a a' mx' of
                        Inl e \<Rightarrow> Inl e | Inr r \<Rightarrow> Inr (snd r))) = Inr v
              \<and> (case drop_piece b (get_next_open_row b col) col piece of
                   Inl e \<Rightarrow> Inl e
                 | Inr board_copy \<Rightarrow>
                     (case exhaustive board_copy d mx' of
                        Inl e \<Rightarrow> Inl e | Inr r \<Rightarrow> Inr (snd r))) = Inr m
              \<and> agrees_within a a' v m"
      if "col \<in> set (column # rest)" "a < a'" for col a a' mx' piece
    proof -
      from that vm have "col \<in> set (get_valid_moves b)" by simp
      from move_applies [OF Suc.prems(1) this, of piece] obtain b' where
        b': "drop_piece b (get_next_open_row b col) col piece = Inr b'" "wf_board b'" by blast
      from Suc.IH [OF b'(2) that(2), of mx'] b'(1) show ?thesis by auto
    qed
    show ?thesis
    proof (cases mx)
      case True
      have "\<exists>c v c' m. max_loop (max_child b d beta) (column # rest) MInf column alpha beta
                = Inr (c, v)
            \<and> exh_max_loop (exh_max_child b d) (column # rest) MInf column = Inr (c', m)
            \<and> agrees_within alpha beta v m"
        by (rule max_loop_agrees) (use child Suc.prems(2) in \<open>simp_all add: max_def\<close>)
      with False True vm show ?thesis
        by (simp add: minimax_max_step exhaustive_max_step
            del: max_loop.simps exh_max_loop.simps)
    next
      case mn: False
      have "\<exists>c v c' m. min_loop (min_child b d alpha) (column # rest) PInf column alpha beta
                = Inr (c, v)
            \<and> exh_min_loop (exh_min_child b d) (column # rest) PInf column = Inr (c', m)
            \<and> agrees_within alpha beta v m"
        by (rule min_loop_agrees) (use child Suc.prems(2) in \<open>simp_all add: min_def\<close>)
      with False mn vm show ?thesis
        by (simp add: minimax_min_step exhaustive_min_step
            del: min_loop.simps exh_min_loop.simps)
    qed
  qed
qed

lemma max_loop_root:
  assumes "\<And>col a. col \<in> set cols \<Longrightarrow> a < PInf \<Longrightarrow>
             \<exists>v m. f col a = Inr v \<and> g col = Inr m \<and> agrees_within a PInf v m \<and> v < PInf"
    and "v0 < PInf"
  shows "max_loop f cols v0 column v0 PInf = exh_max_loop g cols v0 column"
  using assms
proof (induction cols arbitrary: v0 column)
  case Nil
  show ?case by simp
next
  case (Cons col cols)
  from Cons.prems(1) [of col v0] Cons.prems(2) obtain v m where
    vm: "f col v0 = Inr v" "g col = Inr m" and ag: "agrees_within v0 PInf v m" and
    fin: "v < PInf" by auto
  show ?case
  proof (cases "v0 < v")
    case True
    with ag fin have eq: "v = m" by (simp add: agrees_within_def)
    have "max_loop f cols v col v PInf = exh_max_loop g cols v col"
      using Cons.prems(1) fin by (intro Cons.IH) auto
    moreover from True have "max v0 v = v" by (auto simp: max_def)
    moreover from fin have "v \<noteq> PInf" by auto
    ultimately show ?thesis using True eq vm by (simp add: Let_def)
  next
    case False
    with ag have "\<not> v0 < m" by (auto simp: agrees_within_def)
    moreover have "max_loop f cols v0 column v0 PInf = exh_max_loop g cols v0 column"
      using Cons.prems by (intro Cons.IH) auto
    moreover from Cons.prems(2) have "v0 \<noteq> PInf" by auto
    ultimately show ?thesis using False vm by (simp add: Let_def)
  qed
qed

lemma minimax_root_exhaustive:
  assumes "wf_board b"
  shows "minimax b d MInf PInf True = exhaustive b d True"
proof (cases "d = 0 \<or> is_terminal_node b")
  case True
  then show ?thesis by (simp add: exhaustive_base [of d b True MInf PInf True])
next
  case False
  then obtain d' where d: "d = Suc d'" by (cases d) auto
  from False obtain column rest where vm: "get_valid_moves b = column # rest"
    using nonterminal_has_move [of b] by (cases "get_valid_moves b") auto
  have child: "\<exists>v m. max_child b d' PInf col a = Inr v \<and> exh_max_child b d' col = Inr m
                 \<and> agrees_within a PInf v m \<and> v < PInf"
    if "col \<in> set (column # rest)" "a < PInf" for col a
  proof -
    from that vm have "col \<in> set (get_valid_moves b)" by simp
    from move_applies [OF assms this, of 2] obtain b' where
      b': "drop_piece b (get_next_open_row b col) col 2 = Inr b'" "wf_board b'" by blast
    from minimax_agrees [OF b'(2) that(2), of d' False] obtain c v c' m where
      r: "minimax b' d' a PInf False = Inr (c, v)" "exhaustive b' d' False = Inr (c', m)"
        "agrees_within a PInf v m" by blast
    from minimax_total [OF b'(2), of d' a PInf False] r(1) have "v \<le> Fin 100000000" by auto
    then have "v < PInf" by (cases v) auto
    with r b'(1) show ?thesis by simp
  qed
  have "max_loop (max_child b d' PInf) (column # rest) MInf column MInf PInf
      = exh_max_loop (exh_max_child b d') (column # rest) MInf column"
    by (rule max_loop_root) (use child in auto)
  with False vm d show ?thesis
    by (simp add: minimax_max_step exhaustive_max_step del: max_loop.simps exh_max_loop.simps)
qed

section \<open>An immediate win is found first\<close>





section \<open>The search writes only to the copies it makes\<close>

lemma preserves_refl: "preserves s s"
  by (simp add: preserves_def)

lemma preserves_trans: "preserves s t \<Longrightarrow> preserves t u \<Longrightarrow> preserves s u"
  by (auto simp: preserves_def)

lemma preserves_copy_write:
  assumes "preserves s0 t"
  shows "preserves s0 ((t @ [x])[length t := y])"
  using assms by (auto simp: preserves_def nth_append)

lemma minimax_st_base:
  assumes "d = 0 \<or> is_terminal_node (s ! a)"
  shows "minimax_st s a d alpha beta mx
       = map_sum id (\<lambda>r. (r, s)) (minimax (s ! a) d alpha beta mx)"
  using assms
  by (subst minimax_st.simps, subst minimax.simps) (auto simp: Let_def)

lemma minimax_st_max_step:
  assumes "\<not> is_terminal_node (s ! a)" "get_valid_moves (s ! a) = column # rest"
  shows "minimax_st s a (Suc d) alpha beta True
       = max_loop_st (max_child_st a d beta) (column # rest) MInf column alpha beta s"
  using assms
  by (subst minimax_st.simps, unfold diff_Suc_1) (simp add: Let_def del: max_loop_st.simps)

lemma minimax_st_min_step:
  assumes "\<not> is_terminal_node (s ! a)" "get_valid_moves (s ! a) = column # rest"
  shows "minimax_st s a (Suc d) alpha beta False
       = min_loop_st (min_child_st a d alpha) (column # rest) PInf column alpha beta s"
  using assms
  by (subst minimax_st.simps, unfold diff_Suc_1) (simp add: Let_def del: min_loop_st.simps)

lemma max_loop_st_frame:
  assumes "\<And>col a t. col \<in> set cols \<Longrightarrow> preserves s0 t \<Longrightarrow>
             \<exists>v t'. fs col a t = Inr (v, t') \<and> f col a = Inr v \<and> preserves s0 t'"
    and "preserves s0 s"
  shows "\<exists>r s'. max_loop_st fs cols v0 column alpha beta s = Inr (r, s')
           \<and> max_loop f cols v0 column alpha beta = Inr r \<and> preserves s0 s'"
  using assms
proof (induction cols arbitrary: v0 column alpha s)
  case Nil
  then show ?case by simp
next
  case (Cons col cols)
  from Cons.prems(1) [of col s alpha] Cons.prems(2) obtain v t where
    v: "fs col alpha s = Inr (v, t)" "f col alpha = Inr v" "preserves s0 t" by auto
  define v1 where "v1 = (if v0 < v then v else v0)"
  define c1 where "c1 = (if v0 < v then col else column)"
  have step: "max_loop_st fs (col # cols) v0 column alpha beta s =
      (if beta \<le> max alpha v1 then Inr ((Some c1, v1), t)
       else max_loop_st fs cols v1 c1 (max alpha v1) beta t)"
    by (simp add: v v1_def c1_def Let_def)
  have pstep: "max_loop f (col # cols) v0 column alpha beta =
      (if beta \<le> max alpha v1 then Inr (Some c1, v1)
       else max_loop f cols v1 c1 (max alpha v1) beta)"
    by (simp add: v v1_def c1_def Let_def)
  show ?case
  proof (cases "beta \<le> max alpha v1")
    case True
    with step pstep v(3) show ?thesis by simp
  next
    case False
    have "\<exists>r s'. max_loop_st fs cols v1 c1 (max alpha v1) beta t = Inr (r, s')
           \<and> max_loop f cols v1 c1 (max alpha v1) beta = Inr r \<and> preserves s0 s'"
      using Cons.prems(1) v(3) by (intro Cons.IH) auto
    with step pstep False show ?thesis by simp
  qed
qed

lemma min_loop_st_frame:
  assumes "\<And>col a t. col \<in> set cols \<Longrightarrow> preserves s0 t \<Longrightarrow>
             \<exists>v t'. fs col a t = Inr (v, t') \<and> f col a = Inr v \<and> preserves s0 t'"
    and "preserves s0 s"
  shows "\<exists>r s'. min_loop_st fs cols v0 column alpha beta s = Inr (r, s')
           \<and> min_loop f cols v0 column alpha beta = Inr r \<and> preserves s0 s'"
  using assms
proof (induction cols arbitrary: v0 column beta s)
  case Nil
  then show ?case by simp
next
  case (Cons col cols)
  from Cons.prems(1) [of col s beta] Cons.prems(2) obtain v t where
    v: "fs col beta s = Inr (v, t)" "f col beta = Inr v" "preserves s0 t" by auto
  define v1 where "v1 = (if v < v0 then v else v0)"
  define c1 where "c1 = (if v < v0 then col else column)"
  have step: "min_loop_st fs (col # cols) v0 column alpha beta s =
      (if min beta v1 \<le> alpha then Inr ((Some c1, v1), t)
       else min_loop_st fs cols v1 c1 alpha (min beta v1) t)"
    by (simp add: v v1_def c1_def Let_def)
  have pstep: "min_loop f (col # cols) v0 column alpha beta =
      (if min beta v1 \<le> alpha then Inr (Some c1, v1)
       else min_loop f cols v1 c1 alpha (min beta v1))"
    by (simp add: v v1_def c1_def Let_def)
  show ?case
  proof (cases "min beta v1 \<le> alpha")
    case True
    with step pstep v(3) show ?thesis by simp
  next
    case False
    have "\<exists>r s'. min_loop_st fs cols v1 c1 alpha (min beta v1) t = Inr (r, s')
           \<and> min_loop f cols v1 c1 alpha (min beta v1) = Inr r \<and> preserves s0 s'"
      using Cons.prems(1) v(3) by (intro Cons.IH) auto
    with step pstep False show ?thesis by simp
  qed
qed

lemma minimax_st_frame:
  assumes "a < length s" "wf_board (s ! a)"
  shows "\<exists>r s'. minimax_st s a d alpha beta mx = Inr (r, s')
           \<and> minimax (s ! a) d alpha beta mx = Inr r \<and> preserves s s'"
  using assms
proof (induction d arbitrary: s a alpha beta mx)
  case 0
  from minimax_total [OF "0.prems"(2), of 0 alpha beta mx] show ?case
    by (auto simp: minimax_st_base preserves_refl)
next
  case (Suc d)
  let ?b = "s ! a"
  show ?case
  proof (cases "is_terminal_node ?b")
    case True
    with minimax_total [OF Suc.prems(2), of "Suc d" alpha beta mx] show ?thesis
      by (auto simp: minimax_st_base preserves_refl)
  next
    case False
    then obtain column rest where vm: "get_valid_moves ?b = column # rest"
      using nonterminal_has_move [of ?b] by (cases "get_valid_moves ?b") auto
    have child: "\<exists>v t'.
          (let row = get_next_open_row (t ! a) col;
               (board_copy, u) = ndarray_copy t a
           in case drop_piece_st u board_copy row col piece of
                Inl e \<Rightarrow> Inl e
              | Inr u \<Rightarrow>
                  (case minimax_st u board_copy d x y mx' of
                     Inl e \<Rightarrow> Inl e
                   | Inr (r, u) \<Rightarrow> Inr (snd r, u))) = Inr (v, t')
        \<and> (case drop_piece ?b (get_next_open_row ?b col) col piece of
             Inl e \<Rightarrow> Inl e
           | Inr board_copy \<Rightarrow>
               (case minimax board_copy d x y mx' of
                  Inl e \<Rightarrow> Inl e
                | Inr r \<Rightarrow> Inr (snd r))) = Inr v
        \<and> preserves s t'"
      if "col \<in> set (column # rest)" "preserves s t" for col x y mx' piece t
    proof -
      from that(2) Suc.prems(1) have ta: "t ! a = ?b" "a < length t"
        by (auto simp: preserves_def)
      from that(1) vm have "col \<in> set (get_valid_moves ?b)" by simp
      from move_applies [OF Suc.prems(2) this, of piece] obtain b' where
        b': "drop_piece ?b (get_next_open_row ?b col) col piece = Inr b'" "wf_board b'"
        by blast
      define u where "u = (t @ [t ! a])[length t := b']"
      have ua: "length t < length u" "u ! length t = b'" by (simp_all add: u_def)
      from Suc.IH [of "length t" u x y mx'] ua b'(2) obtain r u' where
        r: "minimax_st u (length t) d x y mx' = Inr (r, u')"
          "minimax b' d x y mx' = Inr r" "preserves u u'" by auto
      have "preserves s u" unfolding u_def using that(2) by (rule preserves_copy_write)
      from this r(3) have "preserves s u'" by (rule preserves_trans)
      with r(1,2) b'(1) ta show ?thesis
        by (simp add: ndarray_copy_def drop_piece_st_def u_def Let_def)
    qed
    show ?thesis
    proof (cases mx)
      case True
      have "\<exists>r s'. max_loop_st (max_child_st a d beta) (column # rest) MInf column alpha beta s
                = Inr (r, s')
            \<and> max_loop (max_child ?b d beta) (column # rest) MInf column alpha beta = Inr r
            \<and> preserves s s'"
        by (rule max_loop_st_frame) (use child preserves_refl in auto)
      with False True vm show ?thesis
        by (simp add: minimax_st_max_step minimax_max_step
            del: max_loop.simps max_loop_st.simps)
    next
      case mn: False
      have "\<exists>r s'. min_loop_st (min_child_st a d alpha) (column # rest) PInf column alpha beta s
                = Inr (r, s')
            \<and> min_loop (min_child ?b d alpha) (column # rest) PInf column alpha beta = Inr r
            \<and> preserves s s'"
        by (rule min_loop_st_frame) (use child preserves_refl in auto)
      with False mn vm show ?thesis
        by (simp add: minimax_st_min_step minimax_min_step
            del: min_loop.simps min_loop_st.simps)
    qed
  qed
qed

lemma get_best_move_st_frame:
  assumes "a < length s" "wf_board (s ! a)"
  shows "\<exists>move s'. get_best_move_st s d a = Inr (move, s') \<and> preserves s s'
           \<and> get_best_move_depth d (s ! a) = Inr move"
proof -
  define t where "t = s @ [s ! a]"
  have t: "length s < length t" "wf_board (t ! length s)" "preserves s t"
    using assms by (auto simp: t_def preserves_def nth_append)
  from minimax_st_frame [OF t(1,2), of d MInf PInf True] obtain r t' where
    r: "minimax_st t (length s) d MInf PInf True = Inr (r, t')"
      "minimax (t ! length s) d MInf PInf True = Inr r" "preserves t t'" by blast
  from t(3) r(3) have "preserves s t'" by (rule preserves_trans)
  moreover have "t ! length s = s ! a" by (simp add: t_def)
  ultimately show ?thesis
    using r(1,2)
    by (cases r) (simp add: get_best_move_st_def get_best_move_depth_def ndarray_copy_def t_def)
qed

section \<open>Verified properties\<close>

subsection \<open>Win detection\<close>

text \<open>
  C4. For every board and every piece, \<open>winning_move\<close> (in ai.py and in connect4.py) is
  true exactly when four consecutive cells equal to the piece lie along a row, a column
  or one of the two diagonals. A planted run of four in the bottom row is detected, a run
  of three is not.
\<close>

theorem winning_move_iff_connection:
  "(winning_move b piece \<longleftrightarrow> has_connection b piece)
 \<and> (Connect4_winning_move game piece \<longleftrightarrow> has_connection (board game) piece)"
  by (simp add: Connect4_winning_move_eq winning_move_has_connection)

theorem winning_move_iff_connection_witness:
  "has_connection run4_board AI_PIECE \<and> \<not> has_connection run3_board AI_PIECE"
proof -
  have "winning_move run4_board 2" by code_simp
  moreover have "\<not> winning_move run3_board 2" by code_simp
  ultimately show ?thesis
    using winning_move_iff_connection [of run4_board 2]
      winning_move_iff_connection [of run3_board 2] by simp
qed

subsection \<open>Base case of the search\<close>

text \<open>
  C5. When \<open>minimax\<close> reaches its base case (depth 0 or a terminal board) it returns no
  column and the score \<open>+100000000\<close> if the AI has a connection (also when both sides
  have one), else \<open>-100000000\<close> if the player has one, else 0 if the top row is full,
  else \<open>score_position board AI_PIECE\<close>.
\<close>

theorem minimax_base_case:
  assumes "d = 0 \<or> is_terminal_node b"
  shows "minimax b d alpha beta maximizing_player =
     Inr (None, Fin (if winning_move b AI_PIECE then 100000000
                     else if winning_move b PLAYER_PIECE then - 100000000
                     else if list_all (\<lambda>col. b ! 0 ! col \<noteq> EMPTY) [0..<BOARD_WIDTH] then 0
                     else score_position b AI_PIECE))"
  using assms by (rule minimax_base)

theorem minimax_base_case_witness:
  "is_terminal_node both_board
   \<and> minimax both_board 5 MInf PInf False = Inr (None, Fin 100000000)
   \<and> is_terminal_node lost_board
   \<and> minimax lost_board 5 MInf PInf True = Inr (None, Fin (- 100000000))
   \<and> is_terminal_node full_board
   \<and> minimax full_board 5 MInf PInf True = Inr (None, Fin 0)
   \<and> \<not> is_terminal_node run3_board
   \<and> minimax run3_board 0 MInf PInf True = Inr (None, Fin (score_position run3_board AI_PIECE))"
proof -
  have t1: "is_terminal_node both_board" and w1: "winning_move both_board 2" by code_simp+
  have t2: "is_terminal_node lost_board" and w2: "\<not> winning_move lost_board 2"
    "winning_move lost_board 1" by code_simp+
  have t3: "is_terminal_node full_board" and w3: "\<not> winning_move full_board 2"
    "\<not> winning_move full_board 1" "list_all (\<lambda>col. full_board ! 0 ! col \<noteq> 0) [0..<7]"
    by code_simp+
  have t4: "\<not> is_terminal_node run3_board" and w4: "\<not> winning_move run3_board 2"
    "\<not> winning_move run3_board 1" "\<not> list_all (\<lambda>col. run3_board ! 0 ! col \<noteq> 0) [0..<7]"
    by code_simp+
  have "minimax both_board 5 MInf PInf False = Inr (None, Fin 100000000)"
    using minimax_base_case [of 5 both_board MInf PInf False] t1 w1 by simp
  moreover have "minimax lost_board 5 MInf PInf True = Inr (None, Fin (- 100000000))"
    using minimax_base_case [of 5 lost_board MInf PInf True] t2 w2 by simp
  moreover have "minimax full_board 5 MInf PInf True = Inr (None, Fin 0)"
    using minimax_base_case [of 5 full_board MInf PInf True] t3 w3 by simp
  moreover have "minimax run3_board 0 MInf PInf True
      = Inr (None, Fin (score_position run3_board 2))"
    using minimax_base_case [of 0 run3_board MInf PInf True] w4 by simp
  ultimately show ?thesis using t1 t2 t3 t4 by simp
qed

subsection \<open>Range of the heuristic\<close>

text \<open>
  C9. The absolute value of \<open>score_position\<close> is strictly below the sentinel
  \<open>100000000\<close>, for every board and either piece.
\<close>

theorem score_position_below_sentinel: "\<bar>score_position b piece\<bar> < 100000000"
  using score_position_bounds [of b piece] by arith

subsection \<open>Exchanging the sides\<close>

text \<open>
  C6, as stated, fails: with one AI piece in the centre of the bottom row the score for
  the AI is 3, and the score of the side-swapped board for the player is 3 as well, not
  \<open>-3\<close>.
\<close>

theorem score_position_negation_counterexample:
  "score_position centre_board AI_PIECE \<noteq> - score_position (swap_sides centre_board) PLAYER_PIECE"
  by code_simp

text \<open>
  C6, amended. For every 6 by 7 board, \<open>score_position\<close> of the board for one side
  equals \<open>score_position\<close> of the side-swapped board for the other side (the same
  number, without negation).
\<close>

theorem score_position_sides_swapped:
  assumes "wf_board b"
  shows "score_position b AI_PIECE = score_position (swap_sides b) PLAYER_PIECE
       \<and> score_position b PLAYER_PIECE = score_position (swap_sides b) AI_PIECE"
  using score_position_swap [OF assms, of 1] score_position_swap [OF assms, of 2]
  by (simp add: swap_piece_def)

theorem score_position_sides_swapped_witness:
  "wf_board run3_board
   \<and> score_position run3_board AI_PIECE = score_position (swap_sides run3_board) PLAYER_PIECE
   \<and> score_position run3_board PLAYER_PIECE = score_position (swap_sides run3_board) AI_PIECE"
proof -
  have h: "wf_board run3_board" by code_simp
  from score_position_sides_swapped [OF h] h show ?thesis by simp
qed

subsection \<open>The chosen column is a valid move\<close>

text \<open>
  C1, as stated, fails when the AI is built with depth 0: on the empty board, which is
  not terminal, \<open>minimax\<close> stops at once in its base case and \<open>get_best_move\<close>
  returns \<open>None\<close>, which is no column.
\<close>

theorem get_best_move_depth_zero_counterexample:
  "\<not> is_terminal_node empty_board
   \<and> get_best_move \<lparr>depth = 0\<rparr>
        \<lparr>board = empty_board, game_over = False, turn = AI_PIECE, winner = None\<rparr> = Inr None"
proof -
  have "\<not> is_terminal_node empty_board" by code_simp
  then show ?thesis
    by (simp add: get_best_move_def get_best_move_depth_def minimax_base)
qed

text \<open>
  C1, amended. For every non-terminal 6 by 7 board and every search depth of at least 1,
  \<open>get_best_move\<close> returns a column that is a member of \<open>get_valid_moves\<close> of the
  board.
\<close>

theorem get_best_move_valid:
  assumes "wf_board (board game)" "\<not> is_terminal_node (board game)" "0 < depth self"
  shows "\<exists>col. get_best_move self game = Inr (Some col)
           \<and> col \<in> set (get_valid_moves (board game))"
  using minimax_total [OF assms(1), of "depth self" MInf PInf True] assms(2,3)
  by (auto simp: get_best_move_def get_best_move_depth_def)

theorem get_best_move_valid_witness:
  "wf_board run3_board \<and> \<not> is_terminal_node run3_board \<and> (0::nat) < 1
   \<and> (\<exists>col. get_best_move \<lparr>depth = 1\<rparr>
          \<lparr>board = run3_board, game_over = False, turn = AI_PIECE, winner = None\<rparr>
        = Inr (Some col) \<and> col \<in> set (get_valid_moves run3_board))"
proof -
  have h1: "wf_board run3_board" by code_simp
  have h2: "\<not> is_terminal_node run3_board" by code_simp
  show ?thesis
    using get_best_move_valid [of
        "\<lparr>board = run3_board, game_over = False, turn = 2, winner = None\<rparr>" "\<lparr>depth = 1\<rparr>"]
      h1 h2 by simp
qed

subsection \<open>No invalid access\<close>

text \<open>
  C10. On a 6 by 7 board \<open>minimax\<close> never raises IndexError, at any depth. On a
  non-terminal board \<open>get_valid_moves\<close> is not empty, so \<^verbatim>\<open>valid_moves[0]\<close> exists,
  and for every valid column \<open>get_next_open_row\<close> returns a row between 0 and 5, never
  \<open>-1\<close>, whose cell is empty, so that the piece is written inside the array.
\<close>

theorem minimax_no_invalid_access:
  assumes "wf_board b"
  shows "(\<exists>r. minimax b d alpha beta maximizing_player = Inr r)
       \<and> (\<not> is_terminal_node b \<longrightarrow>
            get_valid_moves b \<noteq> []
          \<and> (\<forall>col \<in> set (get_valid_moves b).
               0 \<le> get_next_open_row b col \<and> get_next_open_row b col < 6
             \<and> get_next_open_row b col \<noteq> - 1
             \<and> b ! nat (get_next_open_row b col) ! col = EMPTY
             \<and> (\<exists>board_copy. drop_piece b (get_next_open_row b col) col piece = Inr board_copy)))"
proof -
  have "\<exists>r. minimax b d alpha beta maximizing_player = Inr r"
    using minimax_total [OF assms, of d alpha beta maximizing_player] by blast
  moreover have "0 \<le> get_next_open_row b col \<and> get_next_open_row b col < 6
             \<and> get_next_open_row b col \<noteq> - 1
             \<and> b ! nat (get_next_open_row b col) ! col = 0
             \<and> (\<exists>board_copy. drop_piece b (get_next_open_row b col) col piece = Inr board_copy)"
    if "col \<in> set (get_valid_moves b)" for col
    using move_applies [OF assms that, of piece] by auto
  ultimately show ?thesis using nonterminal_has_move [of b] by simp
qed

theorem minimax_no_invalid_access_witness:
  "wf_board run3_board \<and> \<not> is_terminal_node run3_board
   \<and> 3 \<in> set (get_valid_moves run3_board)
   \<and> (\<exists>r. minimax run3_board 2 MInf PInf True = Inr r)
   \<and> 0 \<le> get_next_open_row run3_board 3
   \<and> run3_board ! nat (get_next_open_row run3_board 3) ! 3 = 0"
proof -
  have h1: "wf_board run3_board" by code_simp
  have h2: "\<not> is_terminal_node run3_board" by code_simp
  have h3: "3 \<in> set (get_valid_moves run3_board)" by code_simp
  show ?thesis
    using minimax_no_invalid_access [OF h1, of 2 MInf PInf True 2] h1 h2 h3 by simp
qed

subsection \<open>Termination\<close>

text \<open>
  C8. \<open>minimax\<close> terminates on every board and every depth: every argument tuple is
  in the domain of the recursion, every recursive call is made at a strictly smaller
  depth, and on a 6 by 7 board the call returns a result.
\<close>

theorem minimax_terminates:
  "minimax_dom (b, d, alpha, beta, maximizing_player)
   \<and> (\<forall>call. minimax_rel call (b, d, alpha, beta, maximizing_player) \<longrightarrow> fst (snd call) < d)
   \<and> (wf_board b \<longrightarrow> (\<exists>r. minimax b d alpha beta maximizing_player = Inr r))"
proof -
  have "All minimax_dom"
    by (relation "measure (\<lambda>(board, depth, alpha, beta, maximizing_player). depth)") auto
  then have "minimax_dom (b, d, alpha, beta, maximizing_player)" by blast
  moreover have "fst (snd call) < d"
    if "minimax_rel call (b, d, alpha, beta, maximizing_player)" for call
    using that by (cases rule: minimax_rel.cases) auto
  moreover have "\<exists>r. minimax b d alpha beta maximizing_player = Inr r" if "wf_board b"
    using minimax_total [OF that, of d alpha beta maximizing_player] by blast
  ultimately show ?thesis by blast
qed

theorem minimax_terminates_witness:
  "minimax_rel (centre_board, 0, MInf, PInf, False) (empty_board, 1, MInf, PInf, True)
   \<and> wf_board empty_board
   \<and> minimax_dom (empty_board, 1, MInf, PInf, True)
   \<and> (0::nat) < 1
   \<and> (\<exists>r. minimax empty_board 1 MInf PInf True = Inr r)"
proof -
  have vm: "get_valid_moves empty_board = 0 # [1, 2, 3, 4, 5, 6]" by code_simp
  have nt: "\<not> (1 = (0::nat) \<or> is_terminal_node empty_board)" by code_simp
  have dp: "drop_piece empty_board (get_next_open_row empty_board 3) 3 2 = Inr centre_board"
    by code_simp
  have "minimax_rel (centre_board, 1 - 1, MInf, PInf, False) (empty_board, 1, MInf, PInf, True)"
    by (rule minimax_rel.intros(1) [OF refl refl nt _ vm _ dp]) (simp_all add: vm)
  then have r: "minimax_rel (centre_board, 0, MInf, PInf, False)
      (empty_board, 1, MInf, PInf, True)" by simp
  have w: "wf_board empty_board" by code_simp
  show ?thesis
    using minimax_terminates [of empty_board 1 MInf PInf True] r w by auto
qed

subsection \<open>Pruning equivalence\<close>

text \<open>
  C3. For every 6 by 7 board and every depth, the root call
  \<open>minimax board depth MInf PInf True\<close> returns the same column (and the same score) as
  the unpruned exhaustive search over the same tree, with the same ascending move order
  and the same strict update rule.
\<close>

theorem pruning_preserves_choice:
  assumes "wf_board b"
  shows "map_sum id fst (minimax b d MInf PInf True) = map_sum id fst (exhaustive b d True)
       \<and> minimax b d MInf PInf True = exhaustive b d True"
  using minimax_root_exhaustive [OF assms, of d] by simp

theorem pruning_preserves_choice_witness:
  "wf_board run3_board
   \<and> minimax run3_board 2 MInf PInf True = exhaustive run3_board 2 True
   \<and> exhaustive run3_board 1 True = Inr (Some 3, Fin 100000000)
   \<and> minimax run3_board 1 MInf PInf True = Inr (Some 3, Fin 100000000)"
proof -
  have h: "wf_board run3_board" by code_simp
  have e: "exhaustive run3_board 1 True = Inr (Some 3, Fin 100000000)" by code_simp
  show ?thesis
    using pruning_preserves_choice [OF h, of 2] pruning_preserves_choice [OF h, of 1] h e
    by simp
qed

subsection \<open>Immediate wins\<close>



subsection \<open>The caller's board is left unchanged\<close>

text \<open>
  C7. With the boards held in a store of arrays, \<open>minimax\<close> called on the array at
  address \<open>a\<close> returns with that array, and every other array that existed before the
  call, unchanged: each hypothetical piece is written to an array allocated by
  \<^verbatim>\<open>board.copy()\<close> during the call. The result is the one computed from the board as it
  was given, so no branch sees a piece placed by a sibling branch. The same holds for
  \<open>get_best_move\<close> and the array of the game.
\<close>

theorem minimax_leaves_board_unchanged:
  assumes "a < length s" "wf_board (s ! a)"
  shows "(\<exists>r s'. minimax_st s a d alpha beta maximizing_player = Inr (r, s')
            \<and> s' ! a = s ! a \<and> preserves s s'
            \<and> minimax (s ! a) d alpha beta maximizing_player = Inr r)
       \<and> (\<exists>move s'. get_best_move_st s d a = Inr (move, s')
            \<and> s' ! a = s ! a \<and> preserves s s')"
proof -
  from minimax_st_frame [OF assms, of d alpha beta maximizing_player] obtain r s' where
    r: "minimax_st s a d alpha beta maximizing_player = Inr (r, s')"
      "minimax (s ! a) d alpha beta maximizing_player = Inr r" "preserves s s'" by blast
  from r(3) assms(1) have "s' ! a = s ! a" by (simp add: preserves_def)
  with r have 1: "\<exists>r s'. minimax_st s a d alpha beta maximizing_player = Inr (r, s')
            \<and> s' ! a = s ! a \<and> preserves s s'
            \<and> minimax (s ! a) d alpha beta maximizing_player = Inr r" by blast
  from get_best_move_st_frame [OF assms, of d] obtain move t where
    m: "get_best_move_st s d a = Inr (move, t)" "preserves s t" by blast
  from m(2) assms(1) have "t ! a = s ! a" by (simp add: preserves_def)
  with m have 2: "\<exists>move s'. get_best_move_st s d a = Inr (move, s')
            \<and> s' ! a = s ! a \<and> preserves s s'" by blast
  from 1 2 show ?thesis by (rule conjI)
qed

theorem minimax_leaves_board_unchanged_witness:
  "(0::nat) < length [run3_board] \<and> wf_board ([run3_board] ! 0)
   \<and> (\<exists>r s'. minimax_st [run3_board] 0 2 MInf PInf True = Inr (r, s')
         \<and> s' ! 0 = run3_board \<and> minimax run3_board 2 MInf PInf True = Inr r)
   \<and> (\<exists>move s'. get_best_move_st [run3_board] 2 0 = Inr (move, s') \<and> s' ! 0 = run3_board)"
proof -
  have h1: "(0::nat) < length [run3_board]" by simp
  have h2: "wf_board ([run3_board] ! 0)" by code_simp
  from minimax_leaves_board_unchanged [OF h1 h2, of 2 MInf PInf True] h1 h2
  show ?thesis by simp blast
qed

end
